theory Spec2Isabelle
  imports Main
begin

section \<open>Data model\<close>

text \<open>
  The values a result row can hold. Python compares them with \<open>==\<close>; on strings,
  integers and \<open>None\<close> that is structural equality.
\<close>

datatype pyval = PyStr string | PyInt int | PyNone

text \<open>
  A result row is a Python dict from column label to value. It is kept as its item list
  and read with \<open>map_of\<close>; the dict is falsy exactly when it has no item.
\<close>

type_synonym row = "(string \<times> pyval) list"

datatype error = KeyError string | ConfigMissingException string

text \<open>\<open>row[k]\<close>: the value, or \<open>KeyError\<close>.\<close>

definition getitem :: "row \<Rightarrow> string \<Rightarrow> error + pyval" where
  "getitem r k = (case map_of r k of None \<Rightarrow> Inl (KeyError k) | Some v \<Rightarrow> Inr v)"

text \<open>
  What \<open>SQLAlchemyExtractor.extract()\<close> hands back: a row, or \<open>None\<close>. The test
  \<open>while row:\<close> and \<open>if row:\<close> is Python truthiness.
\<close>

fun truthy :: "row option \<Rightarrow> bool" where
  "truthy None = False"
| "truthy (Some r) = (r \<noteq> [])"

text \<open>\<open>TableKey = namedtuple('TableKey', ['schema', 'table_name'])\<close>\<close>

datatype TableKey = TableKey (key_schema: pyval) (key_table_name: pyval)

text \<open>
  Modelled from the spec: the classes \<open>ColumnMetadata\<close> and \<open>TableMetadata\<close> of
  \<open>databuilder.models.table_metadata\<close> are not among the sources. The records hold the
  fields of the Column Entity and of the Table Entity, filled by the keyword arguments
  of the two constructor calls (\<open>col_type\<close> fills \<open>type\<close>).
\<close>

record ColumnMetadata =
  name :: pyval
  description :: string
  type :: pyval
  sort_order :: pyval

record TableMetadata =
  database :: string
  cluster :: string
  schema :: pyval
  name :: pyval
  description :: string
  columns :: "ColumnMetadata list"

section \<open>The row source\<close>

text \<open>
  \<open>SQLAlchemyExtractor\<close> is not among the sources. It is taken as a parameter: the
  list of the values its successive \<open>extract()\<close> calls still have to return. Past the
  end of the result set it returns \<open>None\<close>.
\<close>

type_synonym source = "row option list"

fun alchemy_extract :: "source \<Rightarrow> row option \<times> source" where
  "alchemy_extract [] = (None, [])"
| "alchemy_extract (r # rs) = (r, rs)"

text \<open>
  \<open>_get_raw_extract_iter\<close>, one \<open>next\<close> on the live generator. Both at its start and
  when it is resumed after its \<open>yield\<close> it calls \<open>extract()\<close> once and tests the row:
  a truthy row is yielded (\<open>Some\<close>), anything else ends the generator (\<open>None\<close> stands
  for \<open>StopIteration\<close>).
\<close>

definition get_raw_extract_iter :: "source \<Rightarrow> row option \<times> source" where
  "get_raw_extract_iter src =
     (case alchemy_extract src of
        (row, src') \<Rightarrow> if truthy row then (row, src') else (None, src'))"

section \<open>Grouping\<close>

text \<open>\<open>_get_table_key\<close>: the function falls off its end, returning \<open>None\<close>, on a falsy row.\<close>

definition get_table_key :: "row \<Rightarrow> error + TableKey option" where
  "get_table_key row =
     (if row \<noteq> [] then
        (case getitem row ''schema'' of
           Inl e \<Rightarrow> Inl e
         | Inr s \<Rightarrow>
             (case getitem row ''name'' of
                Inl e \<Rightarrow> Inl e
              | Inr n \<Rightarrow> Inr (Some (TableKey s n))))
      else Inr None)"

text \<open>The \<open>ColumnMetadata(...)\<close> call of the inner loop; its arguments are read left to right.\<close>

definition column_of :: "row \<Rightarrow> error + ColumnMetadata" where
  "column_of row =
     (case getitem row ''col_name'' of
        Inl e \<Rightarrow> Inl e
      | Inr n \<Rightarrow>
          (case getitem row ''col_type'' of
             Inl e \<Rightarrow> Inl e
           | Inr t \<Rightarrow>
               (case getitem row ''col_sort_order'' of
                  Inl e \<Rightarrow> Inl e
                | Inr ord \<Rightarrow>
                    Inr \<lparr>ColumnMetadata.name = n, description = '''', type = t,
                         sort_order = ord\<rparr>)))"

text \<open>The \<open>TableMetadata(...)\<close> call after the inner loop.\<close>

definition table_of :: "string \<Rightarrow> row \<Rightarrow> ColumnMetadata list \<Rightarrow> error + TableMetadata" where
  "table_of cl last_row cols =
     (case getitem last_row ''schema'' of
        Inl e \<Rightarrow> Inl e
      | Inr s \<Rightarrow>
          (case getitem last_row ''name'' of
             Inl e \<Rightarrow> Inl e
           | Inr n \<Rightarrow>
               Inr \<lparr>database = ''druid'', cluster = cl, schema = s, name = n,
                    description = '''', columns = cols\<rparr>))"

text \<open>
  The generator \<open>_get_extract_iter\<close> between two \<open>next\<close> calls. It has one \<open>yield\<close>,
  and what it holds there is the state of \<open>itertools.groupby\<close> over the raw iterator:
  \<^item> \<open>Created\<close>: the generator object exists and has not run; neither has the raw one;
  \<^item> \<open>Pending k row\<close>: the last group ended because the look-ahead \<open>row\<close> has
    another key \<open>k\<close>; \<open>groupby\<close> keeps both as the start of the next group;
  \<^item> \<open>Drained\<close>: the last group ended because the raw iterator raised
    \<open>StopIteration\<close>, so the raw generator has finished;
  \<^item> \<open>Finished\<close>: the generator has returned or has raised.
\<close>

datatype iter_state = Created | Pending "TableKey option" row | Drained | Finished

datatype outcome = Yielded TableMetadata | StopIteration | Raised error

lemma get_raw_extract_iter_length:
  "get_raw_extract_iter src = (Some r, src') \<Longrightarrow> length src' < length src"
  by (cases src) (auto simp: get_raw_extract_iter_def split: if_splits)

text \<open>
  One group: the inner \<open>for row in group\<close> with the group iterator of \<open>groupby\<close>.
  \<open>row\<close> is the row the group iterator yields next, \<open>k\<close> the key of the group,
  \<open>cols\<close> the list \<open>columns\<close> so far. After the append the group iterator takes the
  next raw row: none ends the group, a row with another key ends it and is kept, a row
  with the same key goes through the loop body.
\<close>

function group_rows ::
  "string \<Rightarrow> TableKey option \<Rightarrow> row \<Rightarrow> ColumnMetadata list \<Rightarrow> source
     \<Rightarrow> outcome \<times> iter_state \<times> source" where
  "group_rows cl k row cols src =
     (case column_of row of
        Inl e \<Rightarrow> (Raised e, Finished, src)
      | Inr c \<Rightarrow>
          (case get_raw_extract_iter src of
             (None, src') \<Rightarrow>
               (case table_of cl row (cols @ [c]) of
                  Inl e \<Rightarrow> (Raised e, Finished, src')
                | Inr t \<Rightarrow> (Yielded t, Drained, src'))
           | (Some row', src') \<Rightarrow>
               (case get_table_key row' of
                  Inl e \<Rightarrow> (Raised e, Finished, src')
                | Inr k' \<Rightarrow>
                    if k' = k then group_rows cl k row' (cols @ [c]) src'
                    else
                      (case table_of cl row (cols @ [c]) of
                         Inl e \<Rightarrow> (Raised e, Finished, src')
                       | Inr t \<Rightarrow> (Yielded t, Pending k' row', src')))))"
  by pat_completeness auto
termination
  by (relation "measure (\<lambda>(cl, k, row, cols, src). length src)")
     (auto dest: get_raw_extract_iter_length [OF sym])

text \<open>
  \<open>next\<close> on the generator \<open>_get_extract_iter\<close>, with the cluster label \<open>cl\<close> of the
  extractor. A finished generator raises \<open>StopIteration\<close> and touches nothing.
\<close>

fun next_iter :: "string \<Rightarrow> iter_state \<times> source \<Rightarrow> outcome \<times> iter_state \<times> source" where
  "next_iter cl (Created, src) =
     (case get_raw_extract_iter src of
        (None, src') \<Rightarrow> (StopIteration, Finished, src')
      | (Some row, src') \<Rightarrow>
          (case get_table_key row of
             Inl e \<Rightarrow> (Raised e, Finished, src')
           | Inr k \<Rightarrow> group_rows cl k row [] src'))"
| "next_iter cl (Pending k row, src) = group_rows cl k row [] src"
| "next_iter cl (Drained, src) = (StopIteration, Finished, src)"
| "next_iter cl (Finished, src) = (StopIteration, Finished, src)"

lemma get_raw_extract_iter_length_le:
  "get_raw_extract_iter src = (r, src') \<Longrightarrow> length src' \<le> length src"
  by (cases src) (auto simp: get_raw_extract_iter_def split: if_splits)

lemma group_rows_yielded:
  "group_rows cl k row cols src = (Yielded t, st', src') \<Longrightarrow>
     (st' = Drained \<and> length src' \<le> length src) \<or>
     (\<exists>k' r'. st' = Pending k' r' \<and> length src' < length src)"
proof (induction cl k row cols src rule: group_rows.induct)
  case (1 cl k row cols src)
  from "1.prems" obtain c where c: "column_of row = Inr c"
    by (subst (asm) group_rows.simps) (auto split: sum.splits)
  obtain r src1 where raw: "get_raw_extract_iter src = (r, src1)"
    by (cases "get_raw_extract_iter src")
  show ?case
  proof (cases r)
    case None
    with "1.prems" c raw have "st' = Drained" "src' = src1"
      by (subst (asm) group_rows.simps; auto split: sum.splits)+
    with raw show ?thesis
      by (auto dest: get_raw_extract_iter_length_le)
  next
    case (Some row')
    with raw have less: "length src1 < length src"
      by (auto dest: get_raw_extract_iter_length)
    from "1.prems" c raw Some obtain k' where k': "get_table_key row' = Inr k'"
      by (subst (asm) group_rows.simps) (auto split: sum.splits)
    show ?thesis
    proof (cases "k' = k")
      case True
      with "1.prems" c raw Some k'
      have "group_rows cl k row' (cols @ [c]) src1 = (Yielded t, st', src')"
        by (subst (asm) group_rows.simps) simp
      with "1.IH" [OF c raw [symmetric] Some k' True] less show ?thesis
        by auto
    next
      case False
      with "1.prems" c raw Some k' have "st' = Pending k' row'" "src' = src1"
        by (subst (asm) group_rows.simps; auto split: sum.splits)+
      with less show ?thesis by simp
    qed
  qed
qed

lemma next_iter_yielded:
  "next_iter cl (st, src) = (Yielded t, st', src') \<Longrightarrow>
     (st' = Drained \<and> length src' \<le> length src \<and> st \<noteq> Drained \<and> st \<noteq> Finished) \<or>
     (\<exists>k' r'. st' = Pending k' r' \<and> length src' < length src)"
proof (cases st)
  case Created
  assume a: "next_iter cl (st, src) = (Yielded t, st', src')"
  obtain r src1 where raw: "get_raw_extract_iter src = (r, src1)"
    by (cases "get_raw_extract_iter src")
  with a Created obtain row k where r: "r = Some row" and k: "get_table_key row = Inr k"
    and g: "group_rows cl k row [] src1 = (Yielded t, st', src')"
    by (auto split: option.splits sum.splits)
  from raw r have "length src1 < length src"
    by (auto dest: get_raw_extract_iter_length)
  with group_rows_yielded [OF g] Created show ?thesis
    by auto
next
  case (Pending k row)
  assume "next_iter cl (st, src) = (Yielded t, st', src')"
  with Pending have "group_rows cl k row [] src = (Yielded t, st', src')"
    by simp
  from group_rows_yielded [OF this] Pending show ?thesis
    by auto
qed auto

text \<open>
  The generator run to its end, as \<open>list(self._get_extract_iter())\<close> does: the
  entities it yields, the error that ended it if one did, and what is left of the row
  source.
\<close>

function drain ::
  "string \<Rightarrow> iter_state \<times> source \<Rightarrow> TableMetadata list \<times> error option \<times> source" where
  "drain cl (st, src) =
     (case next_iter cl (st, src) of
        (Yielded t, st', src') \<Rightarrow>
          (case drain cl (st', src') of (ts, e, rest) \<Rightarrow> (t # ts, e, rest))
      | (StopIteration, st', src') \<Rightarrow> ([], None, src')
      | (Raised e, st', src') \<Rightarrow> ([], Some e, src'))"
  by pat_completeness auto
termination
  by (relation "measure (\<lambda>(cl, st, src).
        2 * length src + (case st of Created \<Rightarrow> 1 | Pending k r \<Rightarrow> 1 | _ \<Rightarrow> 0))")
     (auto dest!: next_iter_yielded [OF sym] split: iter_state.splits)

section \<open>The extractor\<close>

text \<open>
  The attributes of a \<open>DruidMetadataExtractor\<close>. \<open>self_alchemy_extractor\<close> is the
  row source; \<open>self_extract_iter\<close> is \<open>None\<close> or the generator.
\<close>

record extractor =
  self_cluster :: string
  sql_stmt :: string
  self_alchemy_extractor :: source
  self_extract_iter :: "iter_state option"

text \<open>
  \<open>extract\<close>. A generator object is truthy, so \<open>not self._extract_iter\<close> holds only
  of \<open>None\<close>. \<open>StopIteration\<close> is the one exception caught; the result \<open>Inr None\<close>
  is the returned \<open>None\<close>.
\<close>

definition "extract" :: "extractor \<Rightarrow> (error + TableMetadata option) \<times> extractor" where
  "extract self =
     (let it = (case self_extract_iter self of None \<Rightarrow> Created | Some g \<Rightarrow> g)
      in case next_iter (self_cluster self) (it, self_alchemy_extractor self) of
           (Yielded t, it', src') \<Rightarrow>
             (Inr (Some t), self\<lparr>self_alchemy_extractor := src', self_extract_iter := Some it'\<rparr>)
         | (StopIteration, it', src') \<Rightarrow>
             (Inr None, self\<lparr>self_alchemy_extractor := src', self_extract_iter := Some it'\<rparr>)
         | (Raised e, it', src') \<Rightarrow>
             (Inl e, self\<lparr>self_alchemy_extractor := src', self_extract_iter := Some it'\<rparr>))"

text \<open>The results of \<open>n\<close> calls of \<open>extract\<close> in a row, and the extractor after them.\<close>

fun extract_n :: "nat \<Rightarrow> extractor \<Rightarrow> (error + TableMetadata option) list \<times> extractor" where
  "extract_n 0 self = ([], self)"
| "extract_n (Suc n) self =
     (case extract self of
        (r, self') \<Rightarrow> (case extract_n n self' of (rs, self'') \<Rightarrow> (r # rs, self'')))"

section \<open>Configuration\<close>

text \<open>
  A \<open>ConfigTree\<close> of the library pyhocon, as far as the extractor reads it: top-level
  keys holding strings. \<open>a.with_fallback(b)\<close> keeps every key of \<open>a\<close> and takes from
  \<open>b\<close> the keys \<open>a\<close> lacks. \<open>get_string\<close> without a default raises on a missing key.
\<close>

type_synonym ConfigTree = "string \<rightharpoonup> string"

definition with_fallback :: "ConfigTree \<Rightarrow> ConfigTree \<Rightarrow> ConfigTree" where
  "with_fallback conf fallback = fallback ++ conf"

definition get_string :: "ConfigTree \<Rightarrow> string \<Rightarrow> error + string" where
  "get_string conf k = (case conf k of None \<Rightarrow> Inl (ConfigMissingException k) | Some v \<Rightarrow> Inr v)"

definition get_string_default :: "ConfigTree \<Rightarrow> string \<Rightarrow> string \<Rightarrow> string" where
  "get_string_default conf k d = (case conf k of None \<Rightarrow> d | Some v \<Rightarrow> v)"

definition WHERE_CLAUSE_SUFFIX_KEY :: string where
  "WHERE_CLAUSE_SUFFIX_KEY = ''where_clause_suffix''"

definition CLUSTER_KEY :: string where
  "CLUSTER_KEY = ''cluster''"

definition DEFAULT_CONFIG :: ConfigTree where
  "DEFAULT_CONFIG = [WHERE_CLAUSE_SUFFIX_KEY \<mapsto> '' '', CLUSTER_KEY \<mapsto> ''gold'']"

text \<open>
  A format string as \<open>str.format\<close> reads it: literal text and replacement fields.
  A field is replaced by its keyword argument, which is not read again for braces; a
  field with no argument raises \<open>KeyError\<close>.
\<close>

datatype piece = Text string | Field string

fun str_format :: "piece list \<Rightarrow> (string \<rightharpoonup> string) \<Rightarrow> error + string" where
  "str_format [] kw = Inr []"
| "str_format (Text s # ps) kw =
     (case str_format ps kw of Inl e \<Rightarrow> Inl e | Inr rest \<Rightarrow> Inr (s @ rest))"
| "str_format (Field f # ps) kw =
     (case kw f of
        None \<Rightarrow> Inl (KeyError f)
      | Some v \<Rightarrow> (case str_format ps kw of Inl e \<Rightarrow> Inl e | Inr rest \<Rightarrow> Inr (v @ rest)))"

text \<open>
  \<open>SQL_STATEMENT\<close> after \<open>textwrap.dedent\<close>: the eight spaces common to its lines are
  gone, and so are the four spaces of the last, blank line. The text opens with a
  newline, since the literal breaks right after its opening quotes.
\<close>

definition SQL_STATEMENT :: "piece list" where
  "SQL_STATEMENT =
     [Text (''\<newline>SELECT'' @
            ''\<newline>TABLE_SCHEMA as schema,'' @
            ''\<newline>TABLE_NAME as name,'' @
            ''\<newline>COLUMN_NAME as col_name,'' @
            ''\<newline>DATA_TYPE as col_type,'' @
            ''\<newline>ORDINAL_POSITION as col_sort_order'' @
            ''\<newline>FROM INFORMATION_SCHEMA.COLUMNS'' @
            ''\<newline>''),
      Field ''where_clause_suffix'',
      Text (''\<newline>order by TABLE_SCHEMA, TABLE_NAME, CAST(ORDINAL_POSITION AS int)'' @
            ''\<newline>'')]"

text \<open>
  \<open>init\<close>. The second argument is the row source that \<open>SQLAlchemyExtractor\<close> becomes
  once it is initialised with the statement; the scoped configuration handed to it is
  not modelled.
\<close>

definition init :: "ConfigTree \<Rightarrow> source \<Rightarrow> error + extractor" where
  "init conf0 rows =
     (let conf = with_fallback conf0 DEFAULT_CONFIG
      in case get_string conf CLUSTER_KEY of
           Inl e \<Rightarrow> Inl e
         | Inr cl \<Rightarrow>
             (case str_format SQL_STATEMENT
                     [''where_clause_suffix'' \<mapsto>
                        get_string_default conf WHERE_CLAUSE_SUFFIX_KEY ''''] of
                Inl e \<Rightarrow> Inl e
              | Inr stmt \<Rightarrow>
                  Inr \<lparr>self_cluster = cl, sql_stmt = stmt, self_alchemy_extractor = rows,
                       self_extract_iter = None\<rparr>))"

section \<open>What the specification speaks of\<close>

text \<open>
  The Table Key of a row as the specification has it, and the rows it calls well
  formed: those with all five expected fields.
\<close>

definition row_key :: "row \<Rightarrow> pyval option \<times> pyval option" where
  "row_key r = (map_of r ''schema'', map_of r ''name'')"

definition expected_fields :: "string list" where
  "expected_fields = [''schema'', ''name'', ''col_name'', ''col_type'', ''col_sort_order'']"

definition well_formed :: "row \<Rightarrow> bool" where
  "well_formed r = list_all (\<lambda>k. map_of r k \<noteq> None) expected_fields"

text \<open>
  The maximal contiguous runs of a list under a key function: a row joins the run that
  follows it when the keys agree, and opens a run of its own otherwise.
\<close>

fun runs :: "('a \<Rightarrow> 'k) \<Rightarrow> 'a list \<Rightarrow> 'a list list" where
  "runs f [] = []"
| "runs f (x # xs) =
     (case runs f xs of
        [] \<Rightarrow> [[x]]
      | g # gs \<Rightarrow> if f x = f (hd g) then (x # g) # gs else [x] # g # gs)"

text \<open>The Column Entity of a row and the Table Entity of a run of rows.\<close>

definition column_entity :: "row \<Rightarrow> ColumnMetadata" where
  "column_entity r =
     \<lparr>ColumnMetadata.name = the (map_of r ''col_name''), description = '''',
      type = the (map_of r ''col_type''), sort_order = the (map_of r ''col_sort_order'')\<rparr>"

definition table_entity :: "string \<Rightarrow> row list \<Rightarrow> TableMetadata" where
  "table_entity cl run =
     \<lparr>database = ''druid'', cluster = cl, schema = the (map_of (last run) ''schema''),
      name = the (map_of (last run) ''name''), description = '''',
      columns = map column_entity run\<rparr>"

text \<open>Rows that have the two fields of the Table Key.\<close>

definition has_key :: "row \<Rightarrow> bool" where
  "has_key r = (map_of r ''schema'' \<noteq> None \<and> map_of r ''name'' \<noteq> None)"

text \<open>The first of the expected fields that a row lacks, in the order the code reads them.\<close>

definition first_missing :: "row \<Rightarrow> string" where
  "first_missing r = hd (filter (\<lambda>k. map_of r k = None) expected_fields)"

section \<open>Auxiliary notions\<close>

text \<open>What \<open>drain\<close> does with the result of one \<open>next\<close>.\<close>

definition drain_rest ::
  "string \<Rightarrow> outcome \<times> iter_state \<times> source \<Rightarrow> TableMetadata list \<times> error option \<times> source" where
  "drain_rest cl res =
     (case res of
        (Yielded t, st', src') \<Rightarrow>
          (case drain cl (st', src') of (ts, e, rest) \<Rightarrow> (t # ts, e, rest))
      | (StopIteration, st', src') \<Rightarrow> ([], None, src')
      | (Raised e, st', src') \<Rightarrow> ([], Some e, src'))"

text \<open>The Table Entity of a run whose first columns were collected before.\<close>

definition group_entity :: "string \<Rightarrow> ColumnMetadata list \<Rightarrow> row list \<Rightarrow> TableMetadata" where
  "group_entity cl cols run = (table_entity cl run)\<lparr>columns := cols @ map column_entity run\<rparr>"

text \<open>The states in which a \<open>next\<close> on the generator may still call the row source.\<close>

fun live :: "iter_state \<Rightarrow> bool" where
  "live Created = True"
| "live (Pending k row) = True"
| "live Drained = False"
| "live Finished = False"

text \<open>The generator of an extractor; the one \<open>extract\<close> makes when there is none yet.\<close>

definition iter_of :: "extractor \<Rightarrow> iter_state" where
  "iter_of self = (case self_extract_iter self of None \<Rightarrow> Created | Some g \<Rightarrow> g)"

text \<open>
  Results compared between a row source and the same source with \<open>post\<close> behind it:
  the same outcome, with \<open>post\<close> behind what is left of the source.
\<close>

definition leave :: "source \<Rightarrow> outcome \<times> iter_state \<times> source \<Rightarrow> outcome \<times> iter_state \<times> source" where
  "leave post res = (case res of (r, st', q) \<Rightarrow> (r, st', q @ post))"

definition put_back :: "source \<Rightarrow> 'a \<times> extractor \<Rightarrow> 'a \<times> extractor" where
  "put_back post res =
     (fst res, (snd res)\<lparr>self_alchemy_extractor := self_alchemy_extractor (snd res) @ post\<rparr>)"

text \<open>
  An extractor as \<open>init\<close> leaves it, for a given cluster label and row source; the
  statement plays no part in extraction and is left empty.
\<close>

definition fresh_extractor :: "string \<Rightarrow> source \<Rightarrow> extractor" where
  "fresh_extractor cl src =
     \<lparr>self_cluster = cl, sql_stmt = '''', self_alchemy_extractor = src,
      self_extract_iter = None\<rparr>"

section \<open>The scenario of the specification\<close>

text \<open>
  A row with all five fields, and the three rows of the scenario: two columns of table
  \<open>s1.t1\<close>, then one of \<open>s1.t2\<close>, with the two Table Entities expected for the cluster
  \<open>gold\<close>.
\<close>

definition raw_row :: "string \<Rightarrow> string \<Rightarrow> string \<Rightarrow> string \<Rightarrow> int \<Rightarrow> row" where
  "raw_row s t c ty pos =
     [(''schema'', PyStr s), (''name'', PyStr t), (''col_name'', PyStr c),
      (''col_type'', PyStr ty), (''col_sort_order'', PyInt pos)]"

definition scenario_rows :: "row list" where
  "scenario_rows =
     [raw_row ''s1'' ''t1'' ''a'' ''STRING'' 1,
      raw_row ''s1'' ''t1'' ''b'' ''LONG'' 2,
      raw_row ''s1'' ''t2'' ''c'' ''STRING'' 1]"

definition scenario_table1 :: TableMetadata where
  "scenario_table1 =
     \<lparr>database = ''druid'', cluster = ''gold'', schema = PyStr ''s1'', name = PyStr ''t1'',
      description = '''',
      columns =
        [\<lparr>ColumnMetadata.name = PyStr ''a'', description = '''', type = PyStr ''STRING'',
          sort_order = PyInt 1\<rparr>,
         \<lparr>ColumnMetadata.name = PyStr ''b'', description = '''', type = PyStr ''LONG'',
          sort_order = PyInt 2\<rparr>]\<rparr>"

definition scenario_table2 :: TableMetadata where
  "scenario_table2 =
     \<lparr>database = ''druid'', cluster = ''gold'', schema = PyStr ''s1'', name = PyStr ''t2'',
      description = '''',
      columns =
        [\<lparr>ColumnMetadata.name = PyStr ''c'', description = '''', type = PyStr ''STRING'',
          sort_order = PyInt 1\<rparr>]\<rparr>"

section \<open>Stepping the generator\<close>

text \<open>The one equation of \<open>group_rows\<close>, case by case.\<close>

declare group_rows.simps [simp del] drain.simps [simp del]

lemma group_rows_raise:
  "column_of row = Inl e \<Longrightarrow> group_rows cl k row cols src = (Raised e, Finished, src)"
  by (subst group_rows.simps) simp

lemma group_rows_stop:
  "column_of row = Inr c \<Longrightarrow> get_raw_extract_iter src = (None, src') \<Longrightarrow>
   table_of cl row (cols @ [c]) = Inr t \<Longrightarrow>
   group_rows cl k row cols src = (Yielded t, Drained, src')"
  by (subst group_rows.simps) simp

lemma group_rows_key_raise:
  "column_of row = Inr c \<Longrightarrow> get_raw_extract_iter src = (Some row', src') \<Longrightarrow>
   get_table_key row' = Inl e \<Longrightarrow>
   group_rows cl k row cols src = (Raised e, Finished, src')"
  by (subst group_rows.simps) simp

lemma group_rows_same:
  "column_of row = Inr c \<Longrightarrow> get_raw_extract_iter src = (Some row', src') \<Longrightarrow>
   get_table_key row' = Inr k \<Longrightarrow>
   group_rows cl k row cols src = group_rows cl k row' (cols @ [c]) src'"
  by (subst group_rows.simps) simp

lemma group_rows_other:
  "column_of row = Inr c \<Longrightarrow> get_raw_extract_iter src = (Some row', src') \<Longrightarrow>
   get_table_key row' = Inr k' \<Longrightarrow> k' \<noteq> k \<Longrightarrow>
   table_of cl row (cols @ [c]) = Inr t \<Longrightarrow>
   group_rows cl k row cols src = (Yielded t, Pending k' row', src')"
  by (subst group_rows.simps) simp

subsection \<open>Well-formed rows\<close>

text \<open>On a row with all five fields no lookup of the code fails.\<close>

lemma well_formed_fields:
  "well_formed r \<longleftrightarrow>
     map_of r ''schema'' \<noteq> None \<and> map_of r ''name'' \<noteq> None \<and> map_of r ''col_name'' \<noteq> None \<and>
     map_of r ''col_type'' \<noteq> None \<and> map_of r ''col_sort_order'' \<noteq> None"
  by (simp add: well_formed_def expected_fields_def)

lemma well_formed_nonempty: "well_formed r \<Longrightarrow> r \<noteq> []"
  by (auto simp: well_formed_fields)

lemma well_formed_key:
  "well_formed r \<Longrightarrow>
   get_table_key r = Inr (Some (TableKey (the (map_of r ''schema'')) (the (map_of r ''name''))))"
  by (auto simp: well_formed_fields get_table_key_def getitem_def)

lemma well_formed_column: "well_formed r \<Longrightarrow> column_of r = Inr (column_entity r)"
  by (auto simp: well_formed_fields column_of_def getitem_def column_entity_def)

lemma well_formed_table:
  "well_formed r \<Longrightarrow>
   table_of cl r cols =
     Inr \<lparr>database = ''druid'', cluster = cl, schema = the (map_of r ''schema''),
          name = the (map_of r ''name''), description = '''', columns = cols\<rparr>"
  by (auto simp: well_formed_fields table_of_def getitem_def)

lemma well_formed_key_eq:
  "well_formed r \<Longrightarrow> well_formed r' \<Longrightarrow>
   get_table_key r' = get_table_key r \<longleftrightarrow> row_key r' = row_key r"
  by (auto simp: well_formed_key row_key_def well_formed_fields)

subsection \<open>Runs\<close>

text \<open>
  \<open>runs\<close> cuts a list into its maximal contiguous runs: the runs put together give
  the list back, a run is not empty and has one key, and two runs in a row differ in
  their keys where they meet.
\<close>

lemma runs_Cons_nonempty: "runs f (x # xs) \<noteq> []"
  by (simp split: list.splits)

lemma runs_hd: "runs f (x # xs) = g # gs \<Longrightarrow> g \<noteq> [] \<and> hd g = x"
  by (auto split: list.splits if_splits)

lemma runs_Cons_Cons:
  "runs f (x # y # ys) =
     (if f x = f y then (x # hd (runs f (y # ys))) # tl (runs f (y # ys))
      else [x] # runs f (y # ys))"
proof -
  obtain g gs where g: "runs f (y # ys) = g # gs"
    using runs_Cons_nonempty [of f y ys] by (cases "runs f (y # ys)") auto
  from runs_hd [OF g] have h: "hd g = y" by simp
  have "runs f (x # y # ys) =
      (case runs f (y # ys) of [] \<Rightarrow> [[x]]
       | g # gs \<Rightarrow> if f x = f (hd g) then (x # g) # gs else [x] # g # gs)"
    by (rule runs.simps(2))
  with g h show ?thesis by (simp del: runs.simps)
qed

lemma concat_runs: "concat (runs f xs) = xs"
  by (induction xs) (auto split: list.splits)

lemma runs_constant: "g \<in> set (runs f xs) \<Longrightarrow> g \<noteq> [] \<and> (\<forall>x\<in>set g. f x = f (hd g))"
  by (induction xs arbitrary: g) (auto split: list.splits if_splits)

lemma runs_maximal:
  "Suc i < length (runs f xs) \<Longrightarrow> f (last (runs f xs ! i)) \<noteq> f (hd (runs f xs ! Suc i))"
proof (induction xs arbitrary: i)
  case Nil
  then show ?case by simp
next
  case (Cons x xs)
  show ?case
  proof (cases xs)
    case Nil
    with Cons.prems show ?thesis by simp
  next
    case (Cons y ys)
    obtain g gs where g: "runs f (y # ys) = g # gs"
      using runs_Cons_nonempty [of f y ys] by (cases "runs f (y # ys)") auto
    from runs_hd [OF g] have h: "hd g = y" "g \<noteq> []" by simp_all
    show ?thesis
    proof (cases "f x = f y")
      case True
      with Cons g have r: "runs f (x # xs) = (x # g) # gs"
        by (simp add: runs_Cons_Cons del: runs.simps)
      show ?thesis
      proof (cases i)
        case 0
        with Cons.prems r Cons.IH [of 0] g Cons h show ?thesis
          by (simp del: runs.simps)
      next
        case (Suc j)
        with Cons.prems r Cons.IH [of i] g Cons show ?thesis
          by (simp del: runs.simps)
      qed
    next
      case False
      with Cons g have r: "runs f (x # xs) = [x] # g # gs"
        by (simp add: runs_Cons_Cons del: runs.simps)
      show ?thesis
      proof (cases i)
        case 0
        with r False h show ?thesis by (simp del: runs.simps)
      next
        case (Suc j)
        with Cons.prems r Cons.IH [of j] g Cons show ?thesis
          by (simp del: runs.simps)
      qed
    qed
  qed
qed

subsection \<open>Well-formed rows through the generator\<close>

lemma drain_next: "drain cl (st, src) = drain_rest cl (next_iter cl (st, src))"
  by (simp add: drain.simps drain_rest_def)

lemma drain_rest_simps:
  "drain_rest cl (Yielded t, st', src') =
     (case drain cl (st', src') of (ts, e, rest) \<Rightarrow> (t # ts, e, rest))"
  "drain_rest cl (StopIteration, st', src') = ([], None, src')"
  "drain_rest cl (Raised e, st', src') = ([], Some e, src')"
  by (simp_all add: drain_rest_def)

lemma drain_Drained: "drain cl (Drained, src) = ([], None, src)"
  by (simp add: drain_next drain_rest_simps)

lemma drain_Finished: "drain cl (Finished, src) = ([], None, src)"
  by (simp add: drain_next drain_rest_simps)

lemma drain_Pending: "drain cl (Pending k row, src) = drain_rest cl (group_rows cl k row [] src)"
  by (simp add: drain_next)

lemma raw_falsy:
  "\<not> truthy (fst (alchemy_extract src)) \<Longrightarrow>
   get_raw_extract_iter src = (None, snd (alchemy_extract src))"
  by (cases "alchemy_extract src") (simp add: get_raw_extract_iter_def)

lemma raw_truthy:
  "r \<noteq> [] \<Longrightarrow> get_raw_extract_iter (Some r # src) = (Some r, src)"
  by (simp add: get_raw_extract_iter_def)

lemma group_entity_Nil: "group_entity cl [] run = table_entity cl run"
  by (simp add: group_entity_def table_entity_def)

lemma group_entity_Cons:
  "g \<noteq> [] \<Longrightarrow> group_entity cl cols (r # g) = group_entity cl (cols @ [column_entity r]) g"
  by (simp add: group_entity_def table_entity_def)

lemma group_rows_well_formed:
  assumes "list_all well_formed rs" and "well_formed row"
    and "get_table_key row = Inr k"
    and "\<not> truthy (fst (alchemy_extract rest))"
  shows "drain_rest cl (group_rows cl k row cols (map Some rs @ rest)) =
           (group_entity cl cols (hd (runs row_key (row # rs))) #
              map (table_entity cl) (tl (runs row_key (row # rs))),
            None, snd (alchemy_extract rest))"
  using assms
proof (induction rs arbitrary: row cols k)
  case Nil
  have "group_rows cl k row cols rest =
      (Yielded (group_entity cl cols [row]), Drained, snd (alchemy_extract rest))"
    using Nil.prems
    by (intro group_rows_stop [OF well_formed_column raw_falsy])
       (simp_all add: well_formed_table group_entity_def table_entity_def)
  then show ?case
    by (simp add: drain_rest_simps drain_Drained)
next
  case (Cons r rs)
  from Cons.prems have wf: "well_formed r" "list_all well_formed rs"
    by simp_all
  obtain k' where k': "get_table_key r = Inr k'"
    using well_formed_key [OF wf(1)] by simp
  have raw: "get_raw_extract_iter (map Some (r # rs) @ rest) = (Some r, map Some rs @ rest)"
    using well_formed_nonempty [OF wf(1)] by (simp add: raw_truthy)
  obtain g gs where g: "runs row_key (r # rs) = g # gs"
    using runs_Cons_nonempty [of row_key r rs] by (cases "runs row_key (r # rs)") auto
  from runs_hd [OF g] have gne: "g \<noteq> []" by simp
  have IH: "drain_rest cl (group_rows cl k' r cs (map Some rs @ rest)) =
      (group_entity cl cs g # map (table_entity cl) gs, None, snd (alchemy_extract rest))" for cs
    using Cons.IH [OF wf(2) wf(1) k' Cons.prems(4), of cs] g by (simp del: runs.simps)
  show ?case
  proof (cases "k' = k")
    case True
    with k' Cons.prems(3) have "row_key row = row_key r"
      using well_formed_key_eq [OF wf(1) Cons.prems(2)] by simp
    then have "runs row_key (row # r # rs) = (row # g) # gs"
      using g by (simp add: runs_Cons_Cons del: runs.simps)
    moreover have "group_rows cl k row cols (map Some (r # rs) @ rest) =
        group_rows cl k r (cols @ [column_entity row]) (map Some rs @ rest)"
      using True k' by (intro group_rows_same [OF well_formed_column [OF Cons.prems(2)] raw]) simp
    ultimately show ?thesis
      using IH [of "cols @ [column_entity row]"] True gne
      by (simp add: group_entity_Cons del: runs.simps)
  next
    case False
    with k' Cons.prems(3) have "row_key row \<noteq> row_key r"
      using well_formed_key_eq [OF wf(1) Cons.prems(2)] by auto
    then have "runs row_key (row # r # rs) = [row] # g # gs"
      using g by (simp add: runs_Cons_Cons del: runs.simps)
    moreover have "group_rows cl k row cols (map Some (r # rs) @ rest) =
        (Yielded (group_entity cl cols [row]), Pending k' r, map Some rs @ rest)"
      using False k' Cons.prems(2)
      by (intro group_rows_other [OF well_formed_column [OF Cons.prems(2)] raw])
         (simp_all add: well_formed_table group_entity_def table_entity_def)
    ultimately show ?thesis
      using IH [of "[]"]
      by (simp add: drain_rest_simps drain_Pending group_entity_Nil del: runs.simps)
  qed
qed

lemma drain_well_formed:
  assumes "list_all well_formed rs" and "\<not> truthy (fst (alchemy_extract rest))"
  shows "drain cl (Created, map Some rs @ rest) =
           (map (table_entity cl) (runs row_key rs), None, snd (alchemy_extract rest))"
proof (cases rs)
  case Nil
  with assms show ?thesis
    by (simp add: drain_next raw_falsy drain_rest_simps)
next
  case (Cons r rs')
  with assms have wf: "well_formed r" "list_all well_formed rs'"
    by simp_all
  obtain k where k: "get_table_key r = Inr k"
    using well_formed_key [OF wf(1)] by simp
  have "drain cl (Created, map Some rs @ rest) =
      drain_rest cl (group_rows cl k r [] (map Some rs' @ rest))"
    using Cons k well_formed_nonempty [OF wf(1)] by (simp add: drain_next raw_truthy)
  also have "\<dots> = (group_entity cl [] (hd (runs row_key rs)) #
      map (table_entity cl) (tl (runs row_key rs)), None, snd (alchemy_extract rest))"
    using group_rows_well_formed [OF wf(2) wf(1) k assms(2)] Cons by simp
  also have "\<dots> = (map (table_entity cl) (runs row_key rs), None, snd (alchemy_extract rest))"
    using runs_Cons_nonempty [of row_key r rs'] Cons
    by (cases "runs row_key rs") (simp_all add: group_entity_Nil del: runs.simps)
  finally show ?thesis .
qed

section \<open>What every step yields\<close>

lemma group_rows_shape:
  "group_rows cl k row cols src = (Yielded t, st', src') \<Longrightarrow>
     database t = ''druid'' \<and> cluster t = cl \<and> description t = '''' \<and>
     (\<exists>cs. columns t = cols @ cs \<and> (\<forall>c\<in>set cs. ColumnMetadata.description c = ''''))"
proof (induction cl k row cols src rule: group_rows.induct)
  case (1 cl k row cols src)
  from "1.prems" obtain c where c: "column_of row = Inr c"
    by (subst (asm) group_rows.simps) (auto split: sum.splits)
  then have cd: "ColumnMetadata.description c = ''''"
    by (auto simp: column_of_def split: sum.splits)
  have tab: "database t' = ''druid'' \<and> cluster t' = cl \<and> description t' = '''' \<and> columns t' = cs"
    if "table_of cl row cs = Inr t'" for t' cs
    using that by (auto simp: table_of_def split: sum.splits)
  obtain r src1 where raw: "get_raw_extract_iter src = (r, src1)"
    by (cases "get_raw_extract_iter src")
  show ?case
  proof (cases r)
    case None
    with "1.prems" c raw have "table_of cl row (cols @ [c]) = Inr t"
      by (subst (asm) group_rows.simps) (auto split: sum.splits)
    from tab [OF this] cd show ?thesis by simp
  next
    case (Some row')
    from "1.prems" c raw Some obtain k' where k': "get_table_key row' = Inr k'"
      by (subst (asm) group_rows.simps) (auto split: sum.splits)
    show ?thesis
    proof (cases "k' = k")
      case True
      with "1.prems" c raw Some k'
      have "group_rows cl k row' (cols @ [c]) src1 = (Yielded t, st', src')"
        by (simp add: group_rows_same)
      from "1.IH" [OF c raw [symmetric] Some k' True this] cd show ?thesis
        by auto
    next
      case False
      with "1.prems" c raw Some k' have "table_of cl row (cols @ [c]) = Inr t"
        by (subst (asm) group_rows.simps) (auto split: sum.splits)
      from tab [OF this] cd show ?thesis by simp
    qed
  qed
qed

lemma group_rows_not_stop: "group_rows cl k row cols src \<noteq> (StopIteration, st', src')"
proof (induction cl k row cols src rule: group_rows.induct)
  case (1 cl k row cols src)
  show ?case
  proof
    assume a: "group_rows cl k row cols src = (StopIteration, st', src')"
    then obtain c where c: "column_of row = Inr c"
      by (subst (asm) group_rows.simps) (auto split: sum.splits)
    obtain r src1 where raw: "get_raw_extract_iter src = (r, src1)"
      by (cases "get_raw_extract_iter src")
    from a c raw obtain row' k' where r: "r = Some row'" and k': "get_table_key row' = Inr k'"
      by (subst (asm) group_rows.simps) (auto split: sum.splits option.splits)
    from a c raw r k' have "k' = k"
      by (subst (asm) group_rows.simps) (auto split: sum.splits if_splits)
    with a c raw r k' have "group_rows cl k row' (cols @ [c]) src1 = (StopIteration, st', src')"
      by (simp add: group_rows_same)
    with "1.IH" [OF c raw [symmetric] r k' \<open>k' = k\<close>] show False
      by simp
  qed
qed

lemma next_iter_shape:
  assumes "next_iter cl (st, src) = (Yielded t, st', src')"
  shows "database t = ''druid'' \<and> cluster t = cl \<and> description t = '''' \<and>
     (\<forall>c\<in>set (columns t). ColumnMetadata.description c = '''')"
proof -
  from assms obtain k row src0 where "group_rows cl k row [] src0 = (Yielded t, st', src')"
    by (cases st) (auto split: prod.splits option.splits sum.splits)
  from group_rows_shape [OF this] show ?thesis
    by auto
qed

lemma next_iter_stop:
  assumes "next_iter cl (st, src) = (StopIteration, st', src')"
  shows "st' = Finished"
  using assms
  by (cases st) (auto simp: group_rows_not_stop split: prod.splits option.splits sum.splits)

lemma extract_Some:
  "extract s = (Inr (Some t), s') \<Longrightarrow>
     \<exists>st st' src'. next_iter (self_cluster s) (st, self_alchemy_extractor s) = (Yielded t, st', src') \<and>
        self_cluster s' = self_cluster s"
  by (auto simp: extract_def Let_def split: prod.splits outcome.splits)

lemma extract_cluster: "self_cluster (snd (extract s)) = self_cluster s"
  by (auto simp: extract_def Let_def split: prod.splits outcome.splits)

lemma extract_n_cluster: "self_cluster (snd (extract_n n s)) = self_cluster s"
proof (induction n arbitrary: s)
  case 0
  show ?case by simp
next
  case (Suc n)
  obtain r s1 where e: "extract s = (r, s1)" by (cases "extract s")
  with extract_cluster [of s] have "self_cluster s1 = self_cluster s" by simp
  with Suc [of s1] e show ?case
    by (cases "extract_n n s1") simp
qed

lemma extract_n_member:
  "x \<in> set (fst (extract_n n s)) \<Longrightarrow>
     \<exists>m s1. m < n \<and> s1 = snd (extract_n m s) \<and> x = fst (extract s1)"
proof (induction n arbitrary: s)
  case 0
  then show ?case by simp
next
  case (Suc n)
  obtain r s1 where e: "extract s = (r, s1)" by (cases "extract s")
  show ?case
  proof (cases "x = r")
    case True
    with e have "0 < Suc n \<and> s = snd (extract_n 0 s) \<and> x = fst (extract s)" by simp
    then show ?thesis by blast
  next
    case False
    with Suc.prems e have "x \<in> set (fst (extract_n n s1))"
      by (auto split: prod.splits)
    from Suc.IH [OF this] obtain m where "m < n" "x = fst (extract (snd (extract_n m s1)))"
      by auto
    with e have "Suc m < Suc n \<and> x = fst (extract (snd (extract_n (Suc m) s)))"
      by (auto split: prod.splits)
    then show ?thesis by blast
  qed
qed

section \<open>Initialisation, the sentinel, and the generator behind \<open>extract\<close>\<close>

lemma init_ok:
  "init conf src =
     Inr \<lparr>self_cluster = (case conf ''cluster'' of None \<Rightarrow> ''gold'' | Some c \<Rightarrow> c),
          sql_stmt =
            ''\<newline>SELECT\<newline>TABLE_SCHEMA as schema,\<newline>TABLE_NAME as name,\<newline>COLUMN_NAME as col_name,\<newline>DATA_TYPE as col_type,\<newline>ORDINAL_POSITION as col_sort_order\<newline>FROM INFORMATION_SCHEMA.COLUMNS\<newline>'' @
            (case conf ''where_clause_suffix'' of None \<Rightarrow> '' '' | Some w \<Rightarrow> w) @
            ''\<newline>order by TABLE_SCHEMA, TABLE_NAME, CAST(ORDINAL_POSITION AS int)\<newline>'',
          self_alchemy_extractor = src, self_extract_iter = None\<rparr>"
  by (simp add: init_def with_fallback_def DEFAULT_CONFIG_def get_string_def
      get_string_default_def SQL_STATEMENT_def CLUSTER_KEY_def WHERE_CLAUSE_SUFFIX_KEY_def
      map_add_def split: option.splits)

lemma extract_sentinel_again:
  assumes "extract s = (Inr None, s')"
  shows "self_extract_iter s' = Some Finished \<and> extract_n n s' = (replicate n (Inr None), s')"
proof -
  from assms obtain st src' where
    "next_iter (self_cluster s) (st, self_alchemy_extractor s) = (StopIteration, Finished, src')"
    and s': "s' = s\<lparr>self_alchemy_extractor := src', self_extract_iter := Some Finished\<rparr>"
    by (auto simp: extract_def Let_def split: prod.splits outcome.splits dest: next_iter_stop)
  then have fin: "self_extract_iter s' = Some Finished" by simp
  then have again: "extract s' = (Inr None, s')"
    by (simp add: extract_def)
  have "extract_n n s' = (replicate n (Inr None), s')"
    by (induction n) (simp_all add: again)
  with fin show ?thesis by simp
qed

lemma extract_n_drain:
  assumes "drain cl (st, src) = (ents, err, q)"
    and "self_cluster s = cl" and "self_alchemy_extractor s = src"
    and "(case self_extract_iter s of None \<Rightarrow> Created | Some g \<Rightarrow> g) = st"
  shows "fst (extract_n (Suc (length ents)) s) =
           map (\<lambda>t. Inr (Some t)) ents @ [case err of None \<Rightarrow> Inr None | Some e \<Rightarrow> Inl e]"
  using assms
proof (induction ents arbitrary: s st src)
  case Nil
  obtain r st' src' where nx: "next_iter cl (st, src) = (r, st', src')"
    by (cases "next_iter cl (st, src)")
  with Nil.prems(1) have "r = (case err of None \<Rightarrow> StopIteration | Some e \<Rightarrow> Raised e)"
    by (cases r; cases err) (auto simp: drain_next drain_rest_simps split: prod.splits)
  with nx Nil.prems(2-4) show ?case
    by (cases err) (simp_all add: extract_def)
next
  case (Cons t ts)
  obtain r st' src' where nx: "next_iter cl (st, src) = (r, st', src')"
    by (cases "next_iter cl (st, src)")
  with Cons.prems(1) have r: "r = Yielded t" and d: "drain cl (st', src') = (ts, err, q)"
    by (cases r; auto simp: drain_next drain_rest_simps split: prod.splits)+
  let ?s1 = "s\<lparr>self_alchemy_extractor := src', self_extract_iter := Some st'\<rparr>"
  from nx r Cons.prems(2-4) have e: "extract s = (Inr (Some t), ?s1)"
    by (simp add: extract_def)
  have "fst (extract_n (Suc (length ts)) ?s1) =
      map (\<lambda>t. Inr (Some t)) ts @ [case err of None \<Rightarrow> Inr None | Some e \<Rightarrow> Inl e]"
    using Cons.prems(2) by (intro Cons.IH [OF d]) simp_all
  with e show ?case
    by (simp split: prod.splits)
qed

lemma table_entity_fields:
  "database (table_entity cl g) = ''druid''" "cluster (table_entity cl g) = cl"
  "schema (table_entity cl g) = the (map_of (last g) ''schema'')"
  "name (table_entity cl g) = the (map_of (last g) ''name'')"
  "description (table_entity cl g) = ''''"
  "columns (table_entity cl g) = map column_entity g"
  by (simp_all add: table_entity_def)

lemma runs_all_well_formed:
  "list_all well_formed rows \<Longrightarrow> g \<in> set (runs row_key rows) \<Longrightarrow> list_all well_formed g"
proof -
  assume a: "list_all well_formed rows" and g: "g \<in> set (runs row_key rows)"
  from g have "set g \<subseteq> set (concat (runs row_key rows))" by auto
  with a show ?thesis
    by (auto simp: concat_runs list_all_iff)
qed

lemma runs_key_last:
  assumes "g \<in> set (runs f xs)"
  shows "f (last g) = f (hd g)"
proof -
  from runs_constant [OF assms] have ne: "g \<noteq> []" and c: "\<forall>x\<in>set g. f x = f (hd g)"
    by blast+
  from ne have "last g \<in> set g" by (rule last_in_set)
  with c show ?thesis by blast
qed

lemma table_entity_key:
  assumes "list_all well_formed rows" and g: "g \<in> set (runs row_key rows)"
  shows "(Some (schema (table_entity cl g)), Some (name (table_entity cl g))) = row_key (hd g)"
proof -
  from runs_constant [OF g] have "g \<noteq> []" by blast
  then have "last g \<in> set g" by (rule last_in_set)
  with runs_all_well_formed [OF assms] have "well_formed (last g)"
    by (simp add: list_all_iff)
  then have "(Some (schema (table_entity cl g)), Some (name (table_entity cl g))) = row_key (last g)"
    by (auto simp: table_entity_fields row_key_def well_formed_fields)
  with runs_key_last [OF g] show ?thesis by simp
qed

lemma runs_single:
  "xs \<noteq> [] \<Longrightarrow> \<forall>x\<in>set xs. f x = k \<Longrightarrow> runs f xs = [xs]"
proof (induction xs)
  case Nil
  then show ?case by simp
next
  case (Cons x xs)
  show ?case
  proof (cases xs)
    case Nil
    then show ?thesis by simp
  next
    case (Cons y ys)
    with Cons.IH Cons.prems have "runs f (y # ys) = [y # ys]" and "f x = f y"
      by simp_all
    with Cons show ?thesis
      by (simp add: runs_Cons_Cons del: runs.simps)
  qed
qed

lemma runs_append:
  "xs \<noteq> [] \<Longrightarrow> ys \<noteq> [] \<Longrightarrow> f (last xs) \<noteq> f (hd ys) \<Longrightarrow>
   runs f (xs @ ys) = runs f xs @ runs f ys"
proof (induction xs)
  case Nil
  then show ?case by simp
next
  case (Cons x xs)
  show ?case
  proof (cases xs)
    case Nil
    with Cons.prems obtain y ys' where "ys = y # ys'" "f x \<noteq> f y"
      by (cases ys) auto
    with Nil show ?thesis
      by (simp add: runs_Cons_Cons del: runs.simps) simp
  next
    case (Cons x' xs')
    with Cons.IH Cons.prems have IH: "runs f (xs @ ys) = runs f xs @ runs f ys"
      by simp
    have ne: "runs f (x' # xs') \<noteq> []" by (rule runs_Cons_nonempty)
    from Cons IH ne show ?thesis
      by (simp add: runs_Cons_Cons del: runs.simps)
  qed
qed

section \<open>Rows that lack a field\<close>

lemma first_missing_expected:
  "\<not> well_formed r \<Longrightarrow> first_missing r \<in> set expected_fields \<and> map_of r (first_missing r) = None"
proof -
  assume "\<not> well_formed r"
  then have ne: "filter (\<lambda>k. map_of r k = None) expected_fields \<noteq> []"
    by (auto simp: well_formed_def list_all_iff filter_empty_conv)
  then have "first_missing r \<in> set (filter (\<lambda>k. map_of r k = None) expected_fields)"
    unfolding first_missing_def by (rule hd_in_set)
  then show ?thesis by simp
qed

lemma key_missing:
  "r \<noteq> [] \<Longrightarrow> \<not> has_key r \<Longrightarrow> get_table_key r = Inl (KeyError (first_missing r))"
  by (auto simp: has_key_def get_table_key_def getitem_def first_missing_def expected_fields_def)

lemma key_present:
  "has_key r \<Longrightarrow>
   get_table_key r = Inr (Some (TableKey (the (map_of r ''schema'')) (the (map_of r ''name''))))"
  by (auto simp: has_key_def get_table_key_def getitem_def)

lemma column_missing:
  "has_key r \<Longrightarrow> \<not> well_formed r \<Longrightarrow> column_of r = Inl (KeyError (first_missing r))"
  by (auto simp: has_key_def well_formed_fields column_of_def getitem_def first_missing_def
      expected_fields_def)

lemma well_formed_has_key: "well_formed r \<Longrightarrow> has_key r"
  by (simp add: well_formed_fields has_key_def)

lemma has_key_eq:
  "has_key r \<Longrightarrow> has_key r' \<Longrightarrow> get_table_key r' = get_table_key r \<longleftrightarrow> row_key r' = row_key r"
  by (auto simp: key_present row_key_def has_key_def)

lemma group_rows_malformed:
  assumes "list_all well_formed rs" and "well_formed row"
    and "get_table_key row = Inr k"
    and "bad \<noteq> []" and "\<not> well_formed bad"
  shows "drain_rest cl (group_rows cl k row cols (map Some rs @ Some bad # rest)) =
           ((if has_key bad \<and> row_key bad \<noteq> row_key (last (row # rs)) then id else butlast)
              (group_entity cl cols (hd (runs row_key (row # rs))) #
                 map (table_entity cl) (tl (runs row_key (row # rs)))),
            Some (KeyError (first_missing bad)), rest)"
  using assms(1-3)
proof (induction rs arbitrary: row cols k)
  case Nil
  note col = well_formed_column [OF Nil.prems(2)]
  have raw: "get_raw_extract_iter (Some bad # rest) = (Some bad, rest)"
    using assms(4) by (simp add: raw_truthy)
  show ?case
  proof (cases "has_key bad")
    case False
    then have "group_rows cl k row cols (Some bad # rest) =
        (Raised (KeyError (first_missing bad)), Finished, rest)"
      using assms(4) by (intro group_rows_key_raise [OF col raw]) (simp add: key_missing)
    with False show ?thesis
      by (simp add: drain_rest_simps)
  next
    case True
    then obtain k' where k': "get_table_key bad = Inr k'"
      by (simp add: key_present)
    have bad_col: "group_rows cl kk bad cs rest = (Raised (KeyError (first_missing bad)), Finished, rest)"
      for kk cs
      using True assms(5) by (intro group_rows_raise) (simp add: column_missing)
    show ?thesis
    proof (cases "k' = k")
      case same: True
      with k' Nil.prems have "row_key bad = row_key row"
        using has_key_eq [OF well_formed_has_key [OF Nil.prems(2)] True] by simp
      moreover have "group_rows cl k row cols (Some bad # rest) =
          group_rows cl k bad (cols @ [column_entity row]) rest"
        using same k' by (intro group_rows_same [OF col raw]) simp
      ultimately show ?thesis
        by (simp add: bad_col drain_rest_simps)
    next
      case other: False
      with k' Nil.prems have "row_key bad \<noteq> row_key row"
        using has_key_eq [OF well_formed_has_key [OF Nil.prems(2)] True] by auto
      moreover have "group_rows cl k row cols (Some bad # rest) =
          (Yielded (group_entity cl cols [row]), Pending k' bad, rest)"
        using other k' Nil.prems(2)
        by (intro group_rows_other [OF col raw])
           (simp_all add: well_formed_table group_entity_def table_entity_def)
      ultimately show ?thesis
        using True by (simp add: drain_rest_simps drain_Pending bad_col)
    qed
  qed
next
  case (Cons r rs)
  from Cons.prems have wf: "well_formed r" "list_all well_formed rs"
    by simp_all
  note col = well_formed_column [OF Cons.prems(2)]
  obtain k' where k': "get_table_key r = Inr k'"
    using well_formed_key [OF wf(1)] by simp
  have raw: "get_raw_extract_iter (map Some (r # rs) @ Some bad # rest) =
      (Some r, map Some rs @ Some bad # rest)"
    using well_formed_nonempty [OF wf(1)] by (simp add: raw_truthy)
  obtain g gs where g: "runs row_key (r # rs) = g # gs"
    using runs_Cons_nonempty [of row_key r rs] by (cases "runs row_key (r # rs)") auto
  from runs_hd [OF g] have gne: "g \<noteq> []" by simp
  let ?pick = "if has_key bad \<and> row_key bad \<noteq> row_key (last (r # rs)) then id else butlast"
  have IH: "drain_rest cl (group_rows cl k' r cs (map Some rs @ Some bad # rest)) =
      (?pick (group_entity cl cs g # map (table_entity cl) gs),
       Some (KeyError (first_missing bad)), rest)" for cs
    using Cons.IH [OF wf(2) wf(1) k', of cs] g by (simp del: runs.simps)
  show ?case
  proof (cases "k' = k")
    case True
    with k' Cons.prems(3) have "row_key row = row_key r"
      using well_formed_key_eq [OF wf(1) Cons.prems(2)] by simp
    then have "runs row_key (row # r # rs) = (row # g) # gs"
      using g by (simp add: runs_Cons_Cons del: runs.simps)
    moreover have "group_rows cl k row cols (map Some (r # rs) @ Some bad # rest) =
        group_rows cl k r (cols @ [column_entity row]) (map Some rs @ Some bad # rest)"
      using True k' by (intro group_rows_same [OF col raw]) simp
    ultimately show ?thesis
      using IH [of "cols @ [column_entity row]"] True gne
      by (simp add: group_entity_Cons del: runs.simps)
  next
    case False
    with k' Cons.prems(3) have "row_key row \<noteq> row_key r"
      using well_formed_key_eq [OF wf(1) Cons.prems(2)] by auto
    then have "runs row_key (row # r # rs) = [row] # g # gs"
      using g by (simp add: runs_Cons_Cons del: runs.simps)
    moreover have "group_rows cl k row cols (map Some (r # rs) @ Some bad # rest) =
        (Yielded (group_entity cl cols [row]), Pending k' r, map Some rs @ Some bad # rest)"
      using False k' Cons.prems(2)
      by (intro group_rows_other [OF col raw])
         (simp_all add: well_formed_table group_entity_def table_entity_def)
    ultimately show ?thesis
      using IH [of "[]"]
      by (simp add: drain_rest_simps drain_Pending group_entity_Nil del: runs.simps)
  qed
qed

lemma drain_malformed:
  assumes "list_all well_formed good" and "bad \<noteq> []" and "\<not> well_formed bad"
  shows "drain cl (Created, map Some good @ Some bad # rest) =
           (map (table_entity cl)
              (if has_key bad \<and> (good = [] \<or> row_key bad \<noteq> row_key (last good))
               then runs row_key good else butlast (runs row_key good)),
            Some (KeyError (first_missing bad)), rest)"
proof (cases good)
  case Nil
  show ?thesis
  proof (cases "has_key bad")
    case False
    with Nil assms(2) show ?thesis
      by (simp add: drain_next raw_truthy key_missing drain_rest_simps)
  next
    case True
    then obtain k' where k': "get_table_key bad = Inr k'"
      by (simp add: key_present)
    have "group_rows cl k' bad [] rest = (Raised (KeyError (first_missing bad)), Finished, rest)"
      using True assms(3) by (intro group_rows_raise) (simp add: column_missing)
    with Nil assms(2) k' show ?thesis
      by (simp add: drain_next raw_truthy drain_rest_simps)
  qed
next
  case (Cons r rs)
  with assms have wf: "well_formed r" "list_all well_formed rs"
    by simp_all
  obtain k where k: "get_table_key r = Inr k"
    using well_formed_key [OF wf(1)] by simp
  obtain g gs where g: "runs row_key (r # rs) = g # gs"
    using runs_Cons_nonempty [of row_key r rs] by (cases "runs row_key (r # rs)") auto
  have "drain cl (Created, map Some good @ Some bad # rest) =
      drain_rest cl (group_rows cl k r [] (map Some rs @ Some bad # rest))"
    using Cons k well_formed_nonempty [OF wf(1)] by (simp add: drain_next raw_truthy)
  also note group_rows_malformed [OF wf(2) wf(1) k assms(2,3)]
  finally show ?thesis
    using Cons g by (simp add: group_entity_Nil map_butlast del: runs.simps)
qed

section \<open>Rows behind a falsy answer\<close>

lemma raw_append:
  "s \<noteq> [] \<Longrightarrow> get_raw_extract_iter (s @ post) =
     (fst (get_raw_extract_iter s), snd (get_raw_extract_iter s) @ post)"
  by (cases s) (simp_all add: get_raw_extract_iter_def)

lemma raw_falsy_left:
  "\<exists>y\<in>set s. \<not> truthy y \<Longrightarrow> get_raw_extract_iter s = (Some r, s') \<Longrightarrow> \<exists>y\<in>set s'. \<not> truthy y"
  by (cases s) (auto simp: get_raw_extract_iter_def split: if_splits)

lemma group_rows_append:
  assumes "\<exists>y\<in>set s. \<not> truthy y"
  shows "group_rows cl k row cols (s @ post) = leave post (group_rows cl k row cols s) \<and>
     (\<forall>t k' r' q. group_rows cl k row cols s = (Yielded t, Pending k' r', q) \<longrightarrow>
        (\<exists>y\<in>set q. \<not> truthy y))"
  using assms
proof (induction cl k row cols s rule: group_rows.induct)
  case (1 cl k row cols src)
  from "1.prems" have ne: "src \<noteq> []" by auto
  show ?case
  proof (cases "column_of row")
    case (Inl e)
    then show ?thesis
      by (simp add: group_rows_raise leave_def)
  next
    case (Inr c)
    obtain r src1 where raw: "get_raw_extract_iter src = (r, src1)"
      by (cases "get_raw_extract_iter src")
    with raw_append [OF ne, of post]
    have raw': "get_raw_extract_iter (src @ post) = (r, src1 @ post)"
      by simp
    show ?thesis
    proof (cases r)
      case None
      with Inr raw raw' show ?thesis
        by (subst (1 2 3) group_rows.simps) (simp add: leave_def split: sum.splits)
    next
      case (Some row')
      with raw have "get_raw_extract_iter src = (Some row', src1)"
        by simp
      from raw_falsy_left [OF "1.prems" this] have left: "\<exists>y\<in>set src1. \<not> truthy y" .
      show ?thesis
      proof (cases "get_table_key row'")
        case (Inl e)
        with Inr raw raw' Some show ?thesis
          by (simp add: group_rows_key_raise leave_def)
      next
        case k': (Inr k')
        show ?thesis
        proof (cases "k' = k")
          case True
          with Inr raw raw' Some k' "1.IH" [OF Inr raw [symmetric] Some k' True left]
          show ?thesis
            by (simp add: group_rows_same)
        next
          case False
          with Inr raw raw' Some k' left show ?thesis
            by (subst (1 2 3) group_rows.simps) (simp add: leave_def split: sum.splits)
        qed
      qed
    qed
  qed
qed

lemma next_iter_append:
  assumes "live st \<Longrightarrow> \<exists>y\<in>set s. \<not> truthy y"
  shows "next_iter cl (st, s @ post) = leave post (next_iter cl (st, s)) \<and>
     (\<forall>t st' q. next_iter cl (st, s) = (Yielded t, st', q) \<longrightarrow> live st' \<longrightarrow>
        (\<exists>y\<in>set q. \<not> truthy y))"
proof (cases st)
  case Created
  with assms have f: "\<exists>y\<in>set s. \<not> truthy y" by simp
  then have ne: "s \<noteq> []" by auto
  obtain r s1 where raw: "get_raw_extract_iter s = (r, s1)"
    by (cases "get_raw_extract_iter s")
  with raw_append [OF ne, of post] have raw': "get_raw_extract_iter (s @ post) = (r, s1 @ post)"
    by simp
  show ?thesis
  proof (cases r)
    case None
    with Created raw raw' show ?thesis by (simp add: leave_def)
  next
    case (Some row)
    with raw have "get_raw_extract_iter s = (Some row, s1)" by simp
    from raw_falsy_left [OF f this] have left: "\<exists>y\<in>set s1. \<not> truthy y" .
    show ?thesis
    proof (cases "get_table_key row")
      case (Inl e)
      with Created raw raw' Some show ?thesis by (simp add: leave_def)
    next
      case (Inr k)
      from group_rows_append [OF left, of cl k row "[]" post] group_rows_yielded [of cl k row "[]" s1]
      show ?thesis
        using Created raw raw' Some Inr
        by (auto; metis live.elims(2) iter_state.distinct)
    qed
  qed
next
  case (Pending k row)
  with assms have f: "\<exists>y\<in>set s. \<not> truthy y" by simp
  from group_rows_append [OF f, of cl k row "[]" post] group_rows_yielded [of cl k row "[]" s]
  show ?thesis
    using Pending by (auto; metis live.elims(2) iter_state.distinct)
next
  case Drained
  then show ?thesis by (simp add: leave_def)
next
  case Finished
  then show ?thesis by (simp add: leave_def)
qed

lemma drain_append_pair:
  "(live (fst p) \<Longrightarrow> \<exists>y\<in>set (snd p). \<not> truthy y) \<Longrightarrow>
   drain cl (fst p, snd p @ post) = (case drain cl p of (ents, err, q) \<Rightarrow> (ents, err, q @ post))"
proof (induction cl p rule: drain.induct)
  case (1 cl st src)
  obtain r st' q where nx: "next_iter cl (st, src) = (r, st', q)"
    by (cases "next_iter cl (st, src)")
  from next_iter_append [of st src cl post] "1.prems" nx
  have nx': "next_iter cl (st, src @ post) = (r, st', q @ post)"
    and left: "\<And>t. r = Yielded t \<Longrightarrow> live st' \<Longrightarrow> \<exists>y\<in>set q. \<not> truthy y"
    by (auto simp: leave_def)
  show ?case
  proof (cases r)
    case (Yielded t)
    have "drain cl (st', q @ post) =
        (case drain cl (st', q) of (ents, err, q') \<Rightarrow> (ents, err, q' @ post))"
      using "1.IH" [OF nx [symmetric] Yielded refl] left [OF Yielded] by simp
    with nx nx' Yielded show ?thesis
      by (simp add: drain_next [of cl st] drain_rest_simps split: prod.splits)
  next
    case StopIteration
    with nx nx' show ?thesis
      by (simp add: drain_next [of cl st] drain_rest_simps)
  next
    case (Raised e)
    with nx nx' show ?thesis
      by (simp add: drain_next [of cl st] drain_rest_simps)
  qed
qed

lemma drain_append:
  "(live st \<Longrightarrow> \<exists>y\<in>set s. \<not> truthy y) \<Longrightarrow>
   drain cl (st, s @ post) = (case drain cl (st, s) of (ents, err, q) \<Rightarrow> (ents, err, q @ post))"
  using drain_append_pair [of "(st, s)" cl post] by simp

lemma group_rows_raised:
  "group_rows cl k row cols src = (Raised e, st', src') \<Longrightarrow> st' = Finished"
proof (induction cl k row cols src rule: group_rows.induct)
  case (1 cl k row cols src)
  show ?case
  proof (cases "column_of row")
    case (Inl e')
    with "1.prems" show ?thesis by (simp add: group_rows_raise)
  next
    case (Inr c)
    obtain r src1 where raw: "get_raw_extract_iter src = (r, src1)"
      by (cases "get_raw_extract_iter src")
    show ?thesis
    proof (cases r)
      case None
      with "1.prems" Inr raw show ?thesis
        by (subst (asm) group_rows.simps) (auto split: sum.splits)
    next
      case (Some row')
      show ?thesis
      proof (cases "get_table_key row'")
        case (Inl e')
        with "1.prems" Inr raw Some show ?thesis by (simp add: group_rows_key_raise)
      next
        case k': (Inr k')
        show ?thesis
        proof (cases "k' = k")
          case True
          with "1.prems" Inr raw Some k' "1.IH" [OF Inr raw [symmetric] Some k' True]
          show ?thesis by (simp add: group_rows_same)
        next
          case False
          with "1.prems" Inr raw Some k' show ?thesis
            by (subst (asm) group_rows.simps) (auto split: sum.splits)
        qed
      qed
    qed
  qed
qed

lemma next_iter_raised:
  "next_iter cl (st, src) = (Raised e, st', src') \<Longrightarrow> st' = Finished"
  by (cases st) (auto dest: group_rows_raised split: prod.splits option.splits sum.splits)

lemma extract_next:
  "next_iter (self_cluster s) (iter_of s, self_alchemy_extractor s) = (r, st', src') \<Longrightarrow>
   extract s =
     (case r of Yielded t \<Rightarrow> Inr (Some t) | StopIteration \<Rightarrow> Inr None | Raised e \<Rightarrow> Inl e,
      s\<lparr>self_alchemy_extractor := src', self_extract_iter := Some st'\<rparr>)"
  by (cases r) (simp_all add: extract_def iter_of_def)

lemma extract_append:
  assumes "live (iter_of s) \<Longrightarrow> \<exists>y\<in>set (self_alchemy_extractor s). \<not> truthy y"
  shows "extract (s\<lparr>self_alchemy_extractor := self_alchemy_extractor s @ post\<rparr>) =
           put_back post (extract s) \<and>
         (live (iter_of (snd (extract s))) \<longrightarrow>
            (\<exists>y\<in>set (self_alchemy_extractor (snd (extract s))). \<not> truthy y))"
proof -
  let ?q = "self_alchemy_extractor s"
  let ?s1 = "s\<lparr>self_alchemy_extractor := ?q @ post\<rparr>"
  obtain r st' q' where nx: "next_iter (self_cluster s) (iter_of s, ?q) = (r, st', q')"
    by (cases "next_iter (self_cluster s) (iter_of s, ?q)")
  from next_iter_append [of "iter_of s" ?q "self_cluster s" post] assms nx
  have nx': "next_iter (self_cluster s) (iter_of s, ?q @ post) = (r, st', q' @ post)"
    and left: "\<And>t. r = Yielded t \<Longrightarrow> live st' \<Longrightarrow> \<exists>y\<in>set q'. \<not> truthy y"
    by (auto simp: leave_def)
  have fin: "st' = Finished" if "\<And>t. r \<noteq> Yielded t"
    using that nx by (cases r) (auto dest: next_iter_stop next_iter_raised)
  have live: "live st' \<Longrightarrow> \<exists>y\<in>set q'. \<not> truthy y"
    using left fin by (cases r) auto
  from nx have e0: "extract s =
      (case r of Yielded t \<Rightarrow> Inr (Some t) | StopIteration \<Rightarrow> Inr None | Raised e \<Rightarrow> Inl e,
       s\<lparr>self_alchemy_extractor := q', self_extract_iter := Some st'\<rparr>)"
    by (rule extract_next)
  have "next_iter (self_cluster ?s1) (iter_of ?s1, self_alchemy_extractor ?s1) = (r, st', q' @ post)"
    using nx' by (simp add: iter_of_def)
  from extract_next [OF this] have e: "extract ?s1 =
      (case r of Yielded t \<Rightarrow> Inr (Some t) | StopIteration \<Rightarrow> Inr None | Raised e \<Rightarrow> Inl e,
       s\<lparr>self_alchemy_extractor := q' @ post, self_extract_iter := Some st'\<rparr>)"
    by simp
  from e0 e live show ?thesis
    by (simp add: iter_of_def put_back_def)
qed

lemma extract_n_append:
  assumes "live (iter_of s) \<Longrightarrow> \<exists>y\<in>set (self_alchemy_extractor s). \<not> truthy y"
  shows "extract_n n (s\<lparr>self_alchemy_extractor := self_alchemy_extractor s @ post\<rparr>) =
           put_back post (extract_n n s)"
  using assms
proof (induction n arbitrary: s)
  case 0
  then show ?case by (simp add: put_back_def)
next
  case (Suc n)
  obtain r s1 where e: "extract s = (r, s1)" by (cases "extract s")
  obtain rs s2 where en: "extract_n n s1 = (rs, s2)" by (cases "extract_n n s1")
  from extract_append [OF Suc.prems, of post] e
  have e': "extract (s\<lparr>self_alchemy_extractor := self_alchemy_extractor s @ post\<rparr>) =
      (r, s1\<lparr>self_alchemy_extractor := self_alchemy_extractor s1 @ post\<rparr>)"
    and live: "live (iter_of s1) \<Longrightarrow> \<exists>y\<in>set (self_alchemy_extractor s1). \<not> truthy y"
    by (simp_all add: put_back_def)
  from Suc.IH [OF live] en
  have "extract_n n (s1\<lparr>self_alchemy_extractor := self_alchemy_extractor s1 @ post\<rparr>) =
      (rs, s2\<lparr>self_alchemy_extractor := self_alchemy_extractor s2 @ post\<rparr>)"
    by (simp add: put_back_def)
  with e e' en show ?case
    by (simp add: put_back_def)
qed

section \<open>The claims\<close>

text \<open>
  C1. For every finite sequence of well-formed raw rows from the row source (sorted or
  not, empty or not), the generator \<open>_get_extract_iter\<close> ends without an error, having
  used up the source, and yields as many Table Entities as the rows have maximal
  contiguous runs of one (schema, table_name) key: one entity per run, in order,
  carrying the schema and the name of its run.
\<close>

theorem one_entity_per_run:
  assumes "list_all well_formed rows"
  shows "snd (drain cl (Created, map Some rows)) = (None, []) \<and>
     length (fst (drain cl (Created, map Some rows))) = length (runs row_key rows) \<and>
     map (\<lambda>t. (Some (schema t), Some (name t))) (fst (drain cl (Created, map Some rows))) =
       map (\<lambda>g. row_key (hd g)) (runs row_key rows)"
proof -
  have d: "drain cl (Created, map Some rows) = (map (table_entity cl) (runs row_key rows), None, [])"
    using drain_well_formed [OF assms, of "[]" cl] by simp
  have "(Some (schema (table_entity cl g)), Some (name (table_entity cl g))) = row_key (hd g)"
    if g: "g \<in> set (runs row_key rows)" for g
  proof -
    from runs_constant [OF g] have "last g \<in> set g" by simp
    with runs_all_well_formed [OF assms g] have "well_formed (last g)"
      by (simp add: list_all_iff)
    then have "(Some (schema (table_entity cl g)), Some (name (table_entity cl g))) = row_key (last g)"
      by (auto simp: table_entity_fields row_key_def well_formed_fields)
    with runs_key_last [OF g] show ?thesis by simp
  qed
  then have "map (\<lambda>t. (Some (schema t), Some (name t))) (map (table_entity cl) (runs row_key rows)) =
      map (\<lambda>g. row_key (hd g)) (runs row_key rows)"
    unfolding map_map comp_def by (intro map_cong refl)
  with d show ?thesis by (simp del: runs.simps map_map)
qed

theorem one_entity_per_run_witness:
  "list_all well_formed scenario_rows \<and>
   snd (drain ''gold'' (Created, map Some scenario_rows)) = (None, []) \<and>
   length (fst (drain ''gold'' (Created, map Some scenario_rows))) = 2 \<and>
   map (\<lambda>t. (Some (schema t), Some (name t))) (fst (drain ''gold'' (Created, map Some scenario_rows))) =
     [(Some (PyStr ''s1''), Some (PyStr ''t1'')), (Some (PyStr ''s1''), Some (PyStr ''t2''))]"
proof -
  have h: "list_all well_formed scenario_rows" by code_simp
  have n: "length (runs row_key scenario_rows) = 2" by code_simp
  have k: "map (\<lambda>g. row_key (hd g)) (runs row_key scenario_rows) =
      [(Some (PyStr ''s1''), Some (PyStr ''t1'')), (Some (PyStr ''s1''), Some (PyStr ''t2''))]"
    by code_simp
  from one_entity_per_run [OF h, of "''gold''"] h show ?thesis
    unfolding n k by blast
qed

text \<open>
  C2. The columns of the entities the generator yields are, entity by entity, the
  Column Entities of the rows of the entity's run, one per row and in the order of the
  rows, each with the row's \<open>col_name\<close>, \<open>col_type\<close> and \<open>col_sort_order\<close> as its
  name, type and sort order.
\<close>

theorem columns_follow_rows:
  assumes "list_all well_formed rows"
  shows "map columns (fst (drain cl (Created, map Some rows))) =
     map (map (\<lambda>r. \<lparr>ColumnMetadata.name = the (map_of r ''col_name''), description = '''',
                     type = the (map_of r ''col_type''),
                     sort_order = the (map_of r ''col_sort_order'')\<rparr>))
       (runs row_key rows)"
proof -
  have "drain cl (Created, map Some rows) = (map (table_entity cl) (runs row_key rows), None, [])"
    using drain_well_formed [OF assms, of "[]" cl] by simp
  moreover have "columns (table_entity cl g) =
      map (\<lambda>r. \<lparr>ColumnMetadata.name = the (map_of r ''col_name''), description = '''',
                     type = the (map_of r ''col_type''),
                     sort_order = the (map_of r ''col_sort_order'')\<rparr>) g" for g
    by (simp add: table_entity_fields column_entity_def)
  ultimately show ?thesis
    by (simp add: comp_def del: runs.simps)
qed

theorem columns_follow_rows_witness:
  "list_all well_formed scenario_rows \<and>
   map columns (fst (drain ''gold'' (Created, map Some scenario_rows))) =
     [columns scenario_table1, columns scenario_table2]"
proof -
  have h: "list_all well_formed scenario_rows" by code_simp
  have e: "map (map (\<lambda>r. \<lparr>ColumnMetadata.name = the (map_of r ''col_name''), description = '''',
                     type = the (map_of r ''col_type''),
                     sort_order = the (map_of r ''col_sort_order'')\<rparr>))
       (runs row_key scenario_rows) = [columns scenario_table1, columns scenario_table2]"
    by code_simp
  from columns_follow_rows [OF h, of "''gold''"] h show ?thesis
    unfolding e by blast
qed

text \<open>
  C3. Once \<open>extract\<close> has returned \<open>None\<close>, the generator is finished and stays in
  place: every later call returns \<open>None\<close> again and changes nothing, neither the
  generator nor the row source.
\<close>

theorem sentinel_stays:
  assumes "extract s = (Inr None, s')"
  shows "self_extract_iter s' = Some Finished \<and> extract_n n s' = (replicate n (Inr None), s')"
  using assms by (rule extract_sentinel_again)

theorem sentinel_stays_witness:
  "extract (snd (extract_n 2 (fresh_extractor ''gold'' (map Some scenario_rows)))) =
     (Inr None, (fresh_extractor ''gold'' [])\<lparr>self_extract_iter := Some Finished\<rparr>) \<and>
   self_extract_iter ((fresh_extractor ''gold'' [])\<lparr>self_extract_iter := Some Finished\<rparr>) =
     Some Finished \<and>
   extract_n 3 ((fresh_extractor ''gold'' [])\<lparr>self_extract_iter := Some Finished\<rparr>) =
     (replicate 3 (Inr None), (fresh_extractor ''gold'' [])\<lparr>self_extract_iter := Some Finished\<rparr>)"
proof -
  have h: "extract (snd (extract_n 2 (fresh_extractor ''gold'' (map Some scenario_rows)))) =
     (Inr None, (fresh_extractor ''gold'' [])\<lparr>self_extract_iter := Some Finished\<rparr>)"
    by code_simp
  from sentinel_stays [OF h, of 3] h show ?thesis by blast
qed

text \<open>
  C4. Whatever the extractor's state, cluster label and row source, every entity that
  \<open>extract\<close> returns has the database \<open>druid\<close> and an empty description, and each of
  its columns has an empty description.
\<close>

theorem emitted_constants:
  assumes "Inr (Some t) \<in> set (fst (extract_n n s))"
  shows "database t = ''druid'' \<and> description t = '''' \<and>
     (\<forall>c\<in>set (columns t). ColumnMetadata.description c = '''')"
proof -
  from extract_n_member [OF assms] obtain s1 where "fst (extract s1) = Inr (Some t)"
    by auto
  then have "extract s1 = (Inr (Some t), snd (extract s1))"
    by (cases "extract s1") simp
  from extract_Some [OF this] next_iter_shape show ?thesis
    by blast
qed

theorem emitted_constants_witness:
  "Inr (Some scenario_table1) \<in> set (fst (extract_n 1 (fresh_extractor ''gold'' (map Some scenario_rows)))) \<and>
   database scenario_table1 = ''druid'' \<and> description scenario_table1 = '''' \<and>
   map ColumnMetadata.description (columns scenario_table1) = ['''', '''']"
proof -
  have h: "Inr (Some scenario_table1) \<in>
      set (fst (extract_n 1 (fresh_extractor ''gold'' (map Some scenario_rows))))"
    by code_simp
  have c: "length (columns scenario_table1) = 2" by code_simp
  from emitted_constants [OF h] have "database scenario_table1 = ''druid''"
    and "description scenario_table1 = ''''"
    and "\<forall>c\<in>set (columns scenario_table1). ColumnMetadata.description c = ''''"
    by blast+
  moreover from this(3) have "map ColumnMetadata.description (columns scenario_table1) =
      replicate (length (columns scenario_table1)) ''''"
    by (simp add: map_replicate_const [symmetric] cong: map_cong)
  ultimately show ?thesis
    using h c by (simp add: numeral_2_eq_2)
qed

text \<open>
  C5. Whatever the order of the rows, the generator yields the entities of the maximal
  contiguous runs, one for one and each built from the rows of its own run only. So a
  key whose rows come in several runs, apart from each other and anywhere among the
  rows, gets as many entities as it has runs: for every key, the entities with the key
  are as many as the runs with the key.
\<close>

theorem separated_runs_not_merged:
  assumes "list_all well_formed rows"
  shows "fst (drain cl (Created, map Some rows)) = map (table_entity cl) (runs row_key rows) \<and>
     (\<forall>k. length (filter (\<lambda>t. (Some (schema t), Some (name t)) = k)
                    (fst (drain cl (Created, map Some rows)))) =
          length (filter (\<lambda>g. row_key (hd g) = k) (runs row_key rows)))"
proof -
  have d: "fst (drain cl (Created, map Some rows)) = map (table_entity cl) (runs row_key rows)"
    using drain_well_formed [OF assms, of "[]" cl] by simp
  have "filter (\<lambda>g. (Some (schema (table_entity cl g)), Some (name (table_entity cl g))) = k)
          (runs row_key rows) =
        filter (\<lambda>g. row_key (hd g) = k) (runs row_key rows)" for k
    by (rule filter_cong [OF refl]) (simp add: table_entity_key [OF assms])
  then have "length (filter (\<lambda>t. (Some (schema t), Some (name t)) = k)
                 (map (table_entity cl) (runs row_key rows))) =
      length (filter (\<lambda>g. row_key (hd g) = k) (runs row_key rows))" for k
    by (simp add: filter_map comp_def del: runs.simps)
  with d show ?thesis by (simp del: runs.simps)
qed

theorem separated_runs_not_merged_witness:
  "list_all well_formed
     [raw_row ''s1'' ''t0'' ''z'' ''LONG'' 1, raw_row ''s1'' ''t1'' ''a'' ''STRING'' 1,
      raw_row ''s1'' ''t2'' ''c'' ''STRING'' 1, raw_row ''s1'' ''t1'' ''b'' ''LONG'' 2] \<and>
   fst (drain ''gold''
          (Created,
           map Some
             [raw_row ''s1'' ''t0'' ''z'' ''LONG'' 1, raw_row ''s1'' ''t1'' ''a'' ''STRING'' 1,
              raw_row ''s1'' ''t2'' ''c'' ''STRING'' 1, raw_row ''s1'' ''t1'' ''b'' ''LONG'' 2])) =
     [table_entity ''gold'' [raw_row ''s1'' ''t0'' ''z'' ''LONG'' 1],
      table_entity ''gold'' [raw_row ''s1'' ''t1'' ''a'' ''STRING'' 1],
      scenario_table2,
      table_entity ''gold'' [raw_row ''s1'' ''t1'' ''b'' ''LONG'' 2]] \<and>
   length (filter (\<lambda>t. (Some (schema t), Some (name t)) = (Some (PyStr ''s1''), Some (PyStr ''t1'')))
             (fst (drain ''gold''
                (Created,
                 map Some
                   [raw_row ''s1'' ''t0'' ''z'' ''LONG'' 1, raw_row ''s1'' ''t1'' ''a'' ''STRING'' 1,
                    raw_row ''s1'' ''t2'' ''c'' ''STRING'' 1, raw_row ''s1'' ''t1'' ''b'' ''LONG'' 2])))) = 2"
proof -
  let ?rows = "[raw_row ''s1'' ''t0'' ''z'' ''LONG'' 1, raw_row ''s1'' ''t1'' ''a'' ''STRING'' 1,
      raw_row ''s1'' ''t2'' ''c'' ''STRING'' 1, raw_row ''s1'' ''t1'' ''b'' ''LONG'' 2]"
  have h: "list_all well_formed ?rows" by code_simp
  have e1: "map (table_entity ''gold'') (runs row_key ?rows) =
     [table_entity ''gold'' [raw_row ''s1'' ''t0'' ''z'' ''LONG'' 1],
      table_entity ''gold'' [raw_row ''s1'' ''t1'' ''a'' ''STRING'' 1],
      scenario_table2,
      table_entity ''gold'' [raw_row ''s1'' ''t1'' ''b'' ''LONG'' 2]]"
    by code_simp
  have e2: "length (filter (\<lambda>g. row_key (hd g) = (Some (PyStr ''s1''), Some (PyStr ''t1'')))
      (runs row_key ?rows)) = 2"
    by code_simp
  from separated_runs_not_merged [OF h, of "''gold''"]
  have "fst (drain ''gold'' (Created, map Some ?rows)) = map (table_entity ''gold'') (runs row_key ?rows)"
    and "length (filter (\<lambda>t. (Some (schema t), Some (name t)) = (Some (PyStr ''s1''), Some (PyStr ''t1'')))
                    (fst (drain ''gold'' (Created, map Some ?rows)))) =
          length (filter (\<lambda>g. row_key (hd g) = (Some (PyStr ''s1''), Some (PyStr ''t1''))) (runs row_key ?rows))"
    by blast+
  with h show ?thesis
    unfolding e1 e2 by blast
qed

text \<open>
  C6. When the first answer of the row source is falsy, so that the raw iterator
  yields no row (an empty result set is the case \<open>src = []\<close>), initialisation succeeds,
  the first call of \<open>extract\<close> returns \<open>None\<close>, so does every call, and the generator
  yields no entity.
\<close>

theorem empty_source_sentinel:
  assumes "\<not> truthy (fst (alchemy_extract src))"
  shows "\<exists>s. init conf src = Inr s \<and> fst (extract s) = Inr None \<and>
     fst (extract_n n s) = replicate n (Inr None) \<and>
     fst (drain (self_cluster s) (Created, src)) = []"
proof -
  obtain s where i: "init conf src = Inr s"
    by (simp add: init_ok)
  then have s: "self_extract_iter s = None" "self_alchemy_extractor s = src"
    by (auto simp: init_ok)
  have nx: "next_iter (self_cluster s) (Created, src) =
      (StopIteration, Finished, snd (alchemy_extract src))"
    using assms by (simp add: raw_falsy)
  with s have e: "extract s =
      (Inr None, s\<lparr>self_alchemy_extractor := snd (alchemy_extract src),
                    self_extract_iter := Some Finished\<rparr>)"
    by (simp add: extract_def)
  have "fst (extract_n n s) = replicate n (Inr None)"
  proof (cases n)
    case 0
    then show ?thesis by simp
  next
    case (Suc m)
    with e extract_sentinel_again [OF e, of m] show ?thesis by simp
  qed
  with i e nx show ?thesis
    by (simp add: drain_next drain_rest_simps)
qed

theorem empty_source_sentinel_witness:
  "\<not> truthy (fst (alchemy_extract [])) \<and>
   (\<exists>s. init Map.empty [] = Inr s \<and> fst (extract s) = Inr None \<and>
      fst (extract_n 3 s) = [Inr None, Inr None, Inr None] \<and>
      fst (drain (self_cluster s) (Created, [])) = [])"
proof -
  have h: "\<not> truthy (fst (alchemy_extract []))" by simp
  have r: "replicate 3 (Inr None :: error + TableMetadata option) = [Inr None, Inr None, Inr None]"
    by (simp add: numeral_3_eq_3)
  from empty_source_sentinel [OF h, of Map.empty 3] h show ?thesis
    unfolding r by blast
qed

text \<open>
  C7. Let the row source hold well-formed rows and then a row \<open>bad\<close> that the raw
  iterator yields and that lacks one of the five expected fields. Then initialisation
  succeeds, and the calls of \<open>extract\<close> return the entities of whole runs of the
  rows before \<open>bad\<close> and then raise \<open>KeyError\<close> for the first field that
  \<open>bad\<close> lacks. The run that \<open>bad\<close> cuts short gives no entity: the last run
  before \<open>bad\<close> is returned only if \<open>bad\<close> has its key fields and another key.
\<close>

theorem malformed_row_raises:
  assumes "list_all well_formed good"
    and "get_raw_extract_iter (Some bad # rest) = (Some bad, rest)"
    and "\<not> well_formed bad"
  shows "\<exists>s. init conf (map Some good @ Some bad # rest) = Inr s \<and>
     first_missing bad \<in> set expected_fields \<and> map_of bad (first_missing bad) = None \<and>
     (let whole = (if has_key bad \<and> (good = [] \<or> row_key bad \<noteq> row_key (last good))
                   then runs row_key good else butlast (runs row_key good))
      in fst (extract_n (Suc (length whole)) s) =
           map (\<lambda>g. Inr (Some (table_entity (self_cluster s) g))) whole @
           [Inl (KeyError (first_missing bad))])"
proof -
  obtain s where s: "init conf (map Some good @ Some bad # rest) = Inr s"
    by (simp add: init_ok)
  then have f: "self_alchemy_extractor s = map Some good @ Some bad # rest"
    "self_extract_iter s = None"
    by (auto simp: init_ok)
  let ?whole = "if has_key bad \<and> (good = [] \<or> row_key bad \<noteq> row_key (last good))
                then runs row_key good else butlast (runs row_key good)"
  from assms(2) have "bad \<noteq> []"
    by (auto simp: get_raw_extract_iter_def split: if_splits)
  with assms have "drain (self_cluster s) (Created, map Some good @ Some bad # rest) =
      (map (table_entity (self_cluster s)) ?whole, Some (KeyError (first_missing bad)), rest)"
    by (intro drain_malformed) simp_all
  from extract_n_drain [OF this refl] f
  have "fst (extract_n (Suc (length ?whole)) s) =
      map (\<lambda>g. Inr (Some (table_entity (self_cluster s) g))) ?whole @
      [Inl (KeyError (first_missing bad))]"
    by (simp add: comp_def del: runs.simps)
  with s first_missing_expected [OF assms(3)] show ?thesis
    unfolding Let_def by blast
qed

theorem malformed_row_raises_witness:
  "list_all well_formed [raw_row ''s1'' ''t1'' ''a'' ''STRING'' 1, raw_row ''s1'' ''t1'' ''b'' ''LONG'' 2] \<and>
   get_raw_extract_iter
     (Some [(''schema'', PyStr ''s1''), (''name'', PyStr ''t2''), (''col_name'', PyStr ''c'')] # []) =
     (Some [(''schema'', PyStr ''s1''), (''name'', PyStr ''t2''), (''col_name'', PyStr ''c'')], []) \<and>
   \<not> well_formed [(''schema'', PyStr ''s1''), (''name'', PyStr ''t2''), (''col_name'', PyStr ''c'')] \<and>
   (\<exists>s. init Map.empty
          (map Some [raw_row ''s1'' ''t1'' ''a'' ''STRING'' 1, raw_row ''s1'' ''t1'' ''b'' ''LONG'' 2] @
           Some [(''schema'', PyStr ''s1''), (''name'', PyStr ''t2''), (''col_name'', PyStr ''c'')] # []) = Inr s \<and>
        fst (extract_n 2 s) = [Inr (Some scenario_table1), Inl (KeyError ''col_type'')])"
proof -
  let ?good = "[raw_row ''s1'' ''t1'' ''a'' ''STRING'' 1, raw_row ''s1'' ''t1'' ''b'' ''LONG'' 2]"
  let ?bad = "[(''schema'', PyStr ''s1''), (''name'', PyStr ''t2''), (''col_name'', PyStr ''c'')]"
  have h1: "list_all well_formed ?good" by code_simp
  have h2: "get_raw_extract_iter (Some ?bad # []) = (Some ?bad, [])" by code_simp
  have h3: "\<not> well_formed ?bad" by code_simp
  have e1: "first_missing ?bad = ''col_type''" by code_simp
  have e2: "(if has_key ?bad \<and> (?good = [] \<or> row_key ?bad \<noteq> row_key (last ?good))
             then runs row_key ?good else butlast (runs row_key ?good)) = [?good]"
    by code_simp
  have e3: "table_entity ''gold'' ?good = scenario_table1" by code_simp
  from malformed_row_raises [OF h1 h2 h3, of Map.empty]
  obtain s where s: "init Map.empty (map Some ?good @ Some ?bad # []) = Inr s"
    and r0: "let whole = (if has_key ?bad \<and> (?good = [] \<or> row_key ?bad \<noteq> row_key (last ?good))
                   then runs row_key ?good else butlast (runs row_key ?good))
      in fst (extract_n (Suc (length whole)) s) =
           map (\<lambda>g. Inr (Some (table_entity (self_cluster s) g))) whole @
           [Inl (KeyError (first_missing ?bad))]"
    by blast
  from r0 have r: "fst (extract_n 2 s) =
      [Inr (Some (table_entity (self_cluster s) ?good)), Inl (KeyError ''col_type'')]"
    unfolding e1 e2 Let_def by (simp add: numeral_2_eq_2 del: extract_n.simps)
  from s have "self_cluster s = ''gold''" by (auto simp: init_ok)
  with r e3 have "fst (extract_n 2 s) = [Inr (Some scenario_table1), Inl (KeyError ''col_type'')]"
    by simp
  with h1 h2 h3 s show ?thesis by blast
qed

text \<open>
  C8. The configuration is the caller's with the defaults as fallback. Initialisation
  succeeds; the cluster label of the extractor is the caller's value of \<open>cluster\<close>
  when there is one and \<open>gold\<close> otherwise, and every entity the extractor returns
  carries it; the statement of the extractor holds, between the FROM line and the
  \<open>order by\<close> line, the caller's value of \<open>where_clause_suffix\<close> when there is one
  and a single space otherwise.
\<close>

theorem config_fallback:
  "\<exists>s. init conf src = Inr s \<and>
     self_cluster s = (case conf ''cluster'' of None \<Rightarrow> ''gold'' | Some c \<Rightarrow> c) \<and>
     sql_stmt s =
       ''\<newline>SELECT\<newline>TABLE_SCHEMA as schema,\<newline>TABLE_NAME as name,\<newline>COLUMN_NAME as col_name,\<newline>DATA_TYPE as col_type,\<newline>ORDINAL_POSITION as col_sort_order\<newline>FROM INFORMATION_SCHEMA.COLUMNS\<newline>'' @
       (case conf ''where_clause_suffix'' of None \<Rightarrow> '' '' | Some w \<Rightarrow> w) @
       ''\<newline>order by TABLE_SCHEMA, TABLE_NAME, CAST(ORDINAL_POSITION AS int)\<newline>'' \<and>
     (\<forall>n t. Inr (Some t) \<in> set (fst (extract_n n s)) \<longrightarrow> cluster t = self_cluster s)"
proof -
  obtain s where i: "init conf src = Inr s"
    by (simp add: init_ok)
  then have c: "self_cluster s = (case conf ''cluster'' of None \<Rightarrow> ''gold'' | Some c \<Rightarrow> c)"
    and q: "sql_stmt s =
       ''\<newline>SELECT\<newline>TABLE_SCHEMA as schema,\<newline>TABLE_NAME as name,\<newline>COLUMN_NAME as col_name,\<newline>DATA_TYPE as col_type,\<newline>ORDINAL_POSITION as col_sort_order\<newline>FROM INFORMATION_SCHEMA.COLUMNS\<newline>'' @
       (case conf ''where_clause_suffix'' of None \<Rightarrow> '' '' | Some w \<Rightarrow> w) @
       ''\<newline>order by TABLE_SCHEMA, TABLE_NAME, CAST(ORDINAL_POSITION AS int)\<newline>''"
    by (auto simp: init_ok)
  have stamped: "cluster t = self_cluster s" if "Inr (Some t) \<in> set (fst (extract_n n s))" for n t
  proof -
    from extract_n_member [OF that] obtain m where "fst (extract (snd (extract_n m s))) = Inr (Some t)"
      by auto
    then have "extract (snd (extract_n m s)) = (Inr (Some t), snd (extract (snd (extract_n m s))))"
      by (cases "extract (snd (extract_n m s))") simp
    from extract_Some [OF this] next_iter_shape extract_n_cluster [of m s] show ?thesis
      by metis
  qed
  from i c q stamped show ?thesis
    by blast
qed

theorem config_fallback_witness:
  "\<exists>s. init [''cluster'' \<mapsto> ''prod''] (map Some scenario_rows) = Inr s \<and>
     self_cluster s = ''prod'' \<and>
     sql_stmt s =
       ''\<newline>SELECT\<newline>TABLE_SCHEMA as schema,\<newline>TABLE_NAME as name,\<newline>COLUMN_NAME as col_name,\<newline>DATA_TYPE as col_type,\<newline>ORDINAL_POSITION as col_sort_order\<newline>FROM INFORMATION_SCHEMA.COLUMNS\<newline> \<newline>order by TABLE_SCHEMA, TABLE_NAME, CAST(ORDINAL_POSITION AS int)\<newline>'' \<and>
     Inr (Some (scenario_table1\<lparr>cluster := ''prod''\<rparr>)) \<in> set (fst (extract_n 1 s)) \<and>
     cluster (scenario_table1\<lparr>cluster := ''prod''\<rparr>) = self_cluster s"
proof -
  from config_fallback [of "[''cluster'' \<mapsto> ''prod'']" "map Some scenario_rows"]
  obtain s where i: "init [''cluster'' \<mapsto> ''prod''] (map Some scenario_rows) = Inr s"
    and c: "self_cluster s = ''prod''"
    and w: "sql_stmt s =
       ''\<newline>SELECT\<newline>TABLE_SCHEMA as schema,\<newline>TABLE_NAME as name,\<newline>COLUMN_NAME as col_name,\<newline>DATA_TYPE as col_type,\<newline>ORDINAL_POSITION as col_sort_order\<newline>FROM INFORMATION_SCHEMA.COLUMNS\<newline> \<newline>order by TABLE_SCHEMA, TABLE_NAME, CAST(ORDINAL_POSITION AS int)\<newline>''"
    and st: "\<forall>n t. Inr (Some t) \<in> set (fst (extract_n n s)) \<longrightarrow> cluster t = self_cluster s"
    by auto
  have "case init [''cluster'' \<mapsto> ''prod''] (map Some scenario_rows) of
          Inl e \<Rightarrow> False
        | Inr s \<Rightarrow> Inr (Some (scenario_table1\<lparr>cluster := ''prod''\<rparr>)) \<in> set (fst (extract_n 1 s))"
    by code_simp
  with i have m: "Inr (Some (scenario_table1\<lparr>cluster := ''prod''\<rparr>)) \<in> set (fst (extract_n 1 s))"
    by simp
  with st have "cluster (scenario_table1\<lparr>cluster := ''prod''\<rparr>) = self_cluster s"
    by blast
  with i c w m show ?thesis by blast
qed

text \<open>
  C9. For every string configured as \<open>where_clause_suffix\<close>, initialisation succeeds
  and the statement is the template's text up to and including the line of the FROM
  clause, then the suffix as it is, then the template's text from the line break before
  \<open>order by\<close> on; the text on both sides does not depend on the suffix.
\<close>

theorem sql_stmt_suffix:
  assumes "conf ''where_clause_suffix'' = Some w"
  shows "\<exists>s. init conf src = Inr s \<and>
     sql_stmt s =
       ''\<newline>SELECT\<newline>TABLE_SCHEMA as schema,\<newline>TABLE_NAME as name,\<newline>COLUMN_NAME as col_name,\<newline>DATA_TYPE as col_type,\<newline>ORDINAL_POSITION as col_sort_order\<newline>FROM INFORMATION_SCHEMA.COLUMNS\<newline>'' @
       w @ ''\<newline>order by TABLE_SCHEMA, TABLE_NAME, CAST(ORDINAL_POSITION AS int)\<newline>''"
  using assms by (simp add: init_ok)

theorem sql_stmt_suffix_witness:
  "[''where_clause_suffix'' \<mapsto> ''WHERE TABLE_SCHEMA = '' @ [CHR 0x27] @ ''x'' @ [CHR 0x27]]
     ''where_clause_suffix'' = Some (''WHERE TABLE_SCHEMA = '' @ [CHR 0x27] @ ''x'' @ [CHR 0x27]) \<and>
   (\<exists>s. init [''where_clause_suffix'' \<mapsto> ''WHERE TABLE_SCHEMA = '' @ [CHR 0x27] @ ''x'' @ [CHR 0x27]] [] = Inr s \<and>
     sql_stmt s =
       ''\<newline>SELECT\<newline>TABLE_SCHEMA as schema,\<newline>TABLE_NAME as name,\<newline>COLUMN_NAME as col_name,\<newline>DATA_TYPE as col_type,\<newline>ORDINAL_POSITION as col_sort_order\<newline>FROM INFORMATION_SCHEMA.COLUMNS\<newline>WHERE TABLE_SCHEMA = '' @
       [CHR 0x27] @ ''x'' @ [CHR 0x27] @
       ''\<newline>order by TABLE_SCHEMA, TABLE_NAME, CAST(ORDINAL_POSITION AS int)\<newline>'')"
proof -
  let ?w = "''WHERE TABLE_SCHEMA = '' @ [CHR 0x27] @ ''x'' @ [CHR 0x27]"
  have h: "[''where_clause_suffix'' \<mapsto> ?w] ''where_clause_suffix'' = Some ?w"
    by simp
  from sql_stmt_suffix [of "[''where_clause_suffix'' \<mapsto> ?w]" ?w "[]", OF h] h
  show ?thesis by simp
qed

text \<open>
  C10. A falsy answer \<open>x\<close> of the row source ends the raw iterator, which has then
  taken \<open>x\<close> and nothing after it. Whatever rows \<open>post\<close> the source holds behind
  \<open>x\<close> stay there: the generator run to its end, and any number of calls of
  \<open>extract\<close> on a new extractor, give what they give when nothing follows \<open>x\<close>, and
  leave \<open>post\<close> in the source behind what they leave otherwise.
\<close>

theorem falsy_row_ends_stream:
  assumes "\<not> truthy x"
  shows "get_raw_extract_iter (x # post) = (None, post) \<and>
     drain cl (Created, pre @ x # post) =
       (case drain cl (Created, pre @ [x]) of (ents, err, q) \<Rightarrow> (ents, err, q @ post)) \<and>
     fst (extract_n n (fresh_extractor cl (pre @ x # post))) =
       fst (extract_n n (fresh_extractor cl (pre @ [x]))) \<and>
     self_alchemy_extractor (snd (extract_n n (fresh_extractor cl (pre @ x # post)))) =
       self_alchemy_extractor (snd (extract_n n (fresh_extractor cl (pre @ [x])))) @ post"
proof -
  have d: "drain cl (Created, (pre @ [x]) @ post) =
       (case drain cl (Created, pre @ [x]) of (ents, err, q) \<Rightarrow> (ents, err, q @ post))"
    using assms by (intro drain_append) auto
  let ?s = "fresh_extractor cl (pre @ [x])"
  have "\<exists>y\<in>set (self_alchemy_extractor ?s). \<not> truthy y"
    using assms by (auto simp: fresh_extractor_def)
  from extract_n_append [OF this, of n post]
  have "extract_n n (fresh_extractor cl (pre @ x # post)) = put_back post (extract_n n ?s)"
    by (simp add: fresh_extractor_def)
  with d assms show ?thesis
    by (simp add: get_raw_extract_iter_def put_back_def)
qed

theorem falsy_row_ends_stream_witness:
  "\<not> truthy (Some []) \<and>
   get_raw_extract_iter (Some [] # [Some (raw_row ''s1'' ''t2'' ''c'' ''STRING'' 1)]) =
     (None, [Some (raw_row ''s1'' ''t2'' ''c'' ''STRING'' 1)]) \<and>
   drain ''gold''
     (Created,
      [Some (raw_row ''s1'' ''t1'' ''a'' ''STRING'' 1)] @ Some [] #
      [Some (raw_row ''s1'' ''t2'' ''c'' ''STRING'' 1)]) =
     ([table_entity ''gold'' [raw_row ''s1'' ''t1'' ''a'' ''STRING'' 1]], None,
      [Some (raw_row ''s1'' ''t2'' ''c'' ''STRING'' 1)]) \<and>
   fst (extract_n 3
          (fresh_extractor ''gold''
             ([Some (raw_row ''s1'' ''t1'' ''a'' ''STRING'' 1)] @ Some [] #
              [Some (raw_row ''s1'' ''t2'' ''c'' ''STRING'' 1)]))) =
     [Inr (Some (table_entity ''gold'' [raw_row ''s1'' ''t1'' ''a'' ''STRING'' 1])), Inr None, Inr None] \<and>
   self_alchemy_extractor
     (snd (extract_n 3
          (fresh_extractor ''gold''
             ([Some (raw_row ''s1'' ''t1'' ''a'' ''STRING'' 1)] @ Some [] #
              [Some (raw_row ''s1'' ''t2'' ''c'' ''STRING'' 1)])))) =
     [Some (raw_row ''s1'' ''t2'' ''c'' ''STRING'' 1)]"
proof -
  let ?pre = "[Some (raw_row ''s1'' ''t1'' ''a'' ''STRING'' 1)]"
  let ?post = "[Some (raw_row ''s1'' ''t2'' ''c'' ''STRING'' 1)]"
  have h: "\<not> truthy (Some [])" by simp
  have e1: "drain ''gold'' (Created, ?pre @ [Some []]) =
      ([table_entity ''gold'' [raw_row ''s1'' ''t1'' ''a'' ''STRING'' 1]], None, [])"
    by code_simp
  have e2: "fst (extract_n 3 (fresh_extractor ''gold'' (?pre @ [Some []]))) =
      [Inr (Some (table_entity ''gold'' [raw_row ''s1'' ''t1'' ''a'' ''STRING'' 1])), Inr None, Inr None]"
    by code_simp
  have e3: "self_alchemy_extractor (snd (extract_n 3 (fresh_extractor ''gold'' (?pre @ [Some []])))) = []"
    by code_simp
  from falsy_row_ends_stream [OF h, of ?post "''gold''" ?pre 3] h show ?thesis
    unfolding e1 e2 e3 by simp
qed

end
